theory Spec2Isabelle
  imports Main
begin

section \<open>Strings\<close>

text \<open>
  A Python \<open>str\<close> is a sequence of Unicode code points and \<open>len\<close> counts code points,
  so a string is modelled as a list of code points (natural numbers); \<open>lit\<close> turns an
  ASCII literal into such a list.
\<close>

type_synonym codepoint = nat
type_synonym str = "codepoint list"

definition lit :: "string \<Rightarrow> str" where
  "lit s = map of_char s"

text \<open>
  The slice \<open>s[:n]\<close>. A negative \<open>n\<close> counts from the end of the string, as in Python.
\<close>

definition slice_to :: "'a list \<Rightarrow> int \<Rightarrow> 'a list" where
  "slice_to xs n = (if n < 0 then take (length xs - nat (- n)) xs else take (nat n) xs)"

text \<open>
  \<open>str(i)\<close> for a non-negative integer: its decimal digits. The loop counters of both
  sanitizers start at 1 and only grow, so they are natural numbers.
\<close>

fun str_of_nat :: "nat \<Rightarrow> str" where
  "str_of_nat n = (if n < 10 then [48 + n] else str_of_nat (n div 10) @ [48 + n mod 10])"

declare str_of_nat.simps [simp del]

text \<open>The f-string \<open>f"_{i}"\<close>.\<close>

definition suffix_of :: "nat \<Rightarrow> str" where
  "suffix_of i = 95 # str_of_nat i"

text \<open>
  \<open>str.isspace\<close> on one code point, and \<open>str.strip()\<close> with no argument, which removes
  the leading and the trailing white space.
\<close>

definition isspace :: "codepoint \<Rightarrow> bool" where
  "isspace c \<longleftrightarrow>
     (9 \<le> c \<and> c \<le> 13) \<or> (28 \<le> c \<and> c \<le> 32) \<or> c = 133 \<or> c = 160 \<or> c = 5760 \<or>
     (8192 \<le> c \<and> c \<le> 8202) \<or> c = 8232 \<or> c = 8233 \<or> c = 8239 \<or> c = 8287 \<or> c = 12288"

definition strip :: "str \<Rightarrow> str" where
  "strip s = rev (dropWhile isspace (rev (dropWhile isspace s)))"

section \<open>The sheet-name sanitizer of \<open>src/inventory.py\<close>\<close>

text \<open>
  \<open>sanitize\<close> is local to \<open>resources_to_excel\<close>. The forbidden characters
  \<open>: \ / ? * [ ]\<close> are replaced by an underscore, the name is cut to 31 characters, and
  while the name is taken or empty the loop forms the next name from the base and the
  suffix \<open>_i\<close>. The set \<open>used\<close> is mutated by the source; the model returns the new set
  beside the name. A loop that never ends is the value \<open>None\<close>.
\<close>

definition invalid :: str where
  "invalid = [58, 92, 47, 63, 42, 91, 93]"

definition replace_invalid :: "str \<Rightarrow> str" where
  "replace_invalid name = map (\<lambda>c. if c \<in> set invalid then 95 else c) name"

definition next_name :: "str \<Rightarrow> nat \<Rightarrow> str" where
  "next_name base i =
     (let suffix = suffix_of i
      in if length base + length suffix > 31
         then slice_to base (31 - int (length suffix)) @ suffix
         else base @ suffix)"

partial_function (option) sanitize_loop :: "str set \<Rightarrow> str \<Rightarrow> str \<Rightarrow> nat \<Rightarrow> str option" where
  "sanitize_loop used base s i =
     (if s \<in> used \<or> s = [] then sanitize_loop used base (next_name base i) (i + 1)
      else Some s)"

text \<open>
  The name before the loop: the two assignments to \<open>s\<close> that replace the forbidden
  characters and cut to 31 characters.
\<close>

definition candidate :: "str \<Rightarrow> str" where
  "candidate name = slice_to (replace_invalid name) 31"

definition sanitize :: "str \<Rightarrow> str set \<Rightarrow> (str \<times> str set) option" where
  "sanitize name used =
     (let s = candidate name;
          base = s
      in case sanitize_loop used base s 1 of
           None \<Rightarrow> None
         | Some s' \<Rightarrow> Some (s', insert s' used))"

section \<open>The sheet-name sanitizer of \<open>src/gcp_inventory/inventory.py\<close>\<close>

text \<open>
  \<open>sanitize_sheet_name\<close> removes the forbidden characters, cuts to \<open>MAX_SHEET_LEN\<close>,
  strips white space and falls back to \<open>sheet\<close> when nothing is left; while the name is
  taken, the next name is the base cut to make room for the suffix, stripped again.
\<close>

definition INVALID_SHEET_CHARS :: "codepoint set" where
  "INVALID_SHEET_CHARS = set [58, 92, 92, 47, 42, 63, 91, 93]"

definition MAX_SHEET_LEN :: int where
  "MAX_SHEET_LEN = 31"

definition next_sheet_name :: "str \<Rightarrow> nat \<Rightarrow> str" where
  "next_sheet_name base suffix =
     (let tail = suffix_of suffix
      in strip (slice_to base (MAX_SHEET_LEN - int (length tail)) @ tail))"

partial_function (option) sheet_name_loop :: "str set \<Rightarrow> str \<Rightarrow> str \<Rightarrow> nat \<Rightarrow> str option" where
  "sheet_name_loop used_names base out suffix =
     (if out \<in> used_names
      then sheet_name_loop used_names base (next_sheet_name base suffix) (suffix + 1)
      else Some out)"

text \<open>
  The name before the loop: the two assignments to \<open>out\<close>. In
  \<open>out[:MAX_SHEET_LEN].strip() or 'sheet'\<close> the empty string is the only falsy string.
\<close>

definition sheet_candidate :: "str \<Rightarrow> str" where
  "sheet_candidate name =
     (let out = filter (\<lambda>ch. ch \<notin> INVALID_SHEET_CHARS) name;
          t = strip (slice_to out MAX_SHEET_LEN)
      in if t = [] then lit ''sheet'' else t)"

definition sanitize_sheet_name :: "str \<Rightarrow> str set \<Rightarrow> (str \<times> str set) option" where
  "sanitize_sheet_name name used_names =
     (let out = sheet_candidate name;
          base = out
      in case sheet_name_loop used_names base out 1 of
           None \<Rightarrow> None
         | Some out' \<Rightarrow> Some (out', insert out' used_names))"

section \<open>Values, frames and effects\<close>

text \<open>
  A value decoded from JSON or produced by \<open>MessageToDict\<close>. A number is a Python
  \<open>int\<close> or a Python \<open>float\<close>; the floats are a type of their own about which nothing
  is said, since no function of the repository computes with them. A Python \<open>dict\<close> with
  string keys is an association list in insertion order, its keys distinct.
\<close>

typedecl pyfloat

datatype number = PyInt int | PyFloat pyfloat

datatype json =
    JNull | JBool bool | JNum number | JStr str
  | JList "json list" | JDict "(str \<times> json) list"

text \<open>An exception, with the text \<open>str(e)\<close> gives.\<close>

datatype exn = Exception str

text \<open>
  A \<open>pandas.DataFrame\<close>: its column labels and its rows, a row holding the cells it has a
  value for (a column a row has no value for is an empty cell of that row).
\<close>

record frame =
  columns :: "str list"
  cells :: "(str \<times> json) list list"

text \<open>
  What a run does to the outside world, in order: a shell command executed, a line
  printed to standard output or standard error, a line logged, the search request sent,
  the workbook file written, a file uploaded.
\<close>

datatype event =
    Run str | Print str | PrintErr str | Log str
  | Search str | Save str "(str \<times> frame) list" | Upload str str str

section \<open>The collector of \<open>src/inventory.py\<close>\<close>

text \<open>
  The shell is a function from the command line to what \<open>subprocess.run\<close> observes.
  \<open>run_cmd\<close> passes \<open>check=True\<close>, so an exit status other than 0 raises
  \<open>CalledProcessError\<close>, which it catches: it prints and returns \<open>None\<close>.
\<close>

record completed =
  returncode :: int
  stdout :: str
  stderr :: str

type_synonym shell = "str \<Rightarrow> completed"

definition run_cmd :: "shell \<Rightarrow> str \<Rightarrow> str option \<times> event list" where
  "run_cmd sh cmd =
     (let result = sh cmd
      in if returncode result = 0 then (Some (stdout result), [Run cmd])
         else (None, [Run cmd, PrintErr (lit ''Command failed: '' @ cmd @ [10] @ stderr result)]))"






text \<open>
  The statement \<open>gather_resources\<close> repeats after each listing command: the decoded
  output, or the empty list when the command failed, printed nothing or printed what
  \<open>json.loads\<close> (a parameter, \<open>None\<close> where it raises) cannot decode.
\<close>

definition listing :: "(str \<Rightarrow> json option) \<Rightarrow> str option \<Rightarrow> json" where
  "listing loads out =
     (case out of
        None \<Rightarrow> JList []
      | Some text \<Rightarrow>
          if text = [] then JList []
          else (case loads text of Some v \<Rightarrow> v | None \<Rightarrow> JList []))"


text \<open>
  The Cloud Asset client library, as far as the two collectors use it: whether the
  import in \<open>gather_asset_resources\<close> succeeds, whether constructing the client raises,
  the items the search iterator yields before it ends or raises, the conversion of one
  item (which may raise) and, for the best-effort conversion, the fields of an item: the
  name of each with \<open>str\<close> of its value where the value is not \<open>None\<close> (reading them may
  raise too).
\<close>

record 'i asset_api =
  import_ok :: bool
  AssetServiceClient :: "exn option"
  search_all_resources :: "str \<Rightarrow> 'i list \<times> exn option"
  MessageToDict :: "'i \<Rightarrow> exn + (str \<times> json) list"
  descriptor_fields :: "'i \<Rightarrow> exn + (str \<times> str option) list"

text \<open>
  The inner \<open>try\<close> of \<open>gather_asset_resources\<close>: \<open>MessageToDict\<close>, and when that raises
  the mapping of the field names to the text of the values that are not \<open>None\<close>.
\<close>

definition to_dict :: "'i asset_api \<Rightarrow> 'i \<Rightarrow> exn + (str \<times> json) list" where
  "to_dict api r =
     (case MessageToDict api r of
        Inr d \<Rightarrow> Inr d
      | Inl e \<Rightarrow>
          (case descriptor_fields api r of
             Inl e' \<Rightarrow> Inl e'
           | Inr named \<Rightarrow>
               Inr (concat (map (\<lambda>(name, val). case val of None \<Rightarrow> [] | Some text \<Rightarrow> [(name, JStr text)])
                             named))))"

text \<open>
  The loop of \<open>gather_asset_resources\<close>: the items converted before the first exception,
  and that exception if there is one.
\<close>

fun converted :: "('i \<Rightarrow> exn + (str \<times> json) list) \<Rightarrow> 'i list \<Rightarrow> json list \<times> exn option" where
  "converted f [] = ([], None)"
| "converted f (r # rest) =
     (case f r of
        Inl e \<Rightarrow> ([], Some e)
      | Inr d \<Rightarrow> (let (ds, failure) = converted f rest in (JDict d # ds, failure)))"

definition gather_asset_resources ::
  "(str \<Rightarrow> json option) \<Rightarrow> shell \<Rightarrow> 'i asset_api \<Rightarrow> str \<Rightarrow>
   (exn + json) \<times> event list"
where
  "gather_asset_resources loads sh api project =
     (if \<not> import_ok api
      then (let (out, ev) =
                  run_cmd sh (lit ''gcloud asset search-all-resources --scope=projects/'' @ project @
                              lit '' --project='' @ project @ lit '' --format=json'')
            in (Inr (listing loads out), ev))
      else (case AssetServiceClient api of
              Some e \<Rightarrow> (Inl e, [])
            | None \<Rightarrow>
                (let scope = lit ''projects/'' @ project;
                     (items, ended) = search_all_resources api scope;
                     (resources, raised) = converted (to_dict api) items;
                     failure = (case raised of Some e \<Rightarrow> Some e | None \<Rightarrow> ended)
                 in (Inr (JList resources),
                     Search scope #
                     (case failure of
                        None \<Rightarrow> []
                      | Some (Exception msg) \<Rightarrow>
                          [PrintErr (lit ''Cloud Asset client error: '' @ msg)])))))"

section \<open>The exporter of \<open>src/inventory.py\<close>\<close>

text \<open>
  What the exporter asks of pandas and openpyxl: the two frame constructors on an arbitrary
  value, writing one frame as a sheet, and closing the writer, which writes the file. Each
  may raise.
\<close>

record pandas =
  json_normalize :: "json \<Rightarrow> exn + frame"
  DataFrame_of :: "json \<Rightarrow> exn + frame"
  to_excel :: "str \<Rightarrow> frame \<Rightarrow> exn option"
  close_writer :: "str \<Rightarrow> (str \<times> frame) list \<Rightarrow> exn option"

definition is_record_list :: "json \<Rightarrow> bool" where
  "is_record_list items = (case items of JList (JDict d # rest) \<Rightarrow> True | _ \<Rightarrow> False)"

text \<open>
  The loop over \<open>resources.items()\<close>, with the used names, the sheets written so far and
  the lines printed. An exception in the body is caught and printed, and the loop goes on;
  a name \<open>sanitize\<close> has handed out stays used.
\<close>

fun write_sheets ::
  "pandas \<Rightarrow> (str \<times> json) list \<Rightarrow> str set \<Rightarrow> (str \<times> frame) list \<Rightarrow> event list \<Rightarrow>
   ((str \<times> frame) list \<times> event list) option"
where
  "write_sheets pd [] used_names sheets ev = Some (sheets, ev)"
| "write_sheets pd ((key, items) # rest) used_names sheets ev =
     (case (if is_record_list items then json_normalize pd items else DataFrame_of pd items) of
        Inl (Exception msg) \<Rightarrow>
          write_sheets pd rest used_names sheets
            (ev @ [PrintErr (lit ''Failed to write sheet '' @ key @ lit '': '' @ msg)])
      | Inr df \<Rightarrow>
          (case sanitize key used_names of
             None \<Rightarrow> None
           | Some (sheet_name, used_names') \<Rightarrow>
               (case to_excel pd sheet_name df of
                  Some (Exception msg) \<Rightarrow>
                    write_sheets pd rest used_names' sheets
                      (ev @ [PrintErr (lit ''Failed to write sheet '' @ key @ lit '': '' @ msg)])
                | None \<Rightarrow>
                    write_sheets pd rest used_names' (sheets @ [(sheet_name, df)]) ev)))"

definition resources_to_excel ::
  "pandas \<Rightarrow> (str \<times> json) list \<Rightarrow> str \<Rightarrow> ((exn + unit) \<times> event list) option"
where
  "resources_to_excel pd resources output_file =
     (case write_sheets pd resources {} [] [] of
        None \<Rightarrow> None
      | Some (sheets, ev) \<Rightarrow>
          Some (case close_writer pd output_file sheets of
                  Some e \<Rightarrow> (Inl e, ev)
                | None \<Rightarrow> (Inr (), ev @ [Save output_file sheets])))"


section \<open>The package \<open>src/gcp_inventory/inventory.py\<close>\<close>



text \<open>
  The rows \<open>resources_to_excel\<close> builds: a value that is a mapping or a list becomes the
  text \<open>json.dumps\<close> (a parameter) gives for it, any other value stays.
\<close>

definition is_nested :: "json \<Rightarrow> bool" where
  "is_nested v = (case v of JDict d \<Rightarrow> True | JList xs \<Rightarrow> True | _ \<Rightarrow> False)"

definition flatten_value :: "(json \<Rightarrow> str) \<Rightarrow> json \<Rightarrow> json" where
  "flatten_value dumps v = (if is_nested v then JStr (dumps v) else v)"

definition flatten_row :: "(json \<Rightarrow> str) \<Rightarrow> (str \<times> json) list \<Rightarrow> (str \<times> json) list" where
  "flatten_row dumps r = map (\<lambda>(k, v). (k, flatten_value dumps v)) r"

text \<open>
  \<open>pandas.DataFrame\<close> on a list of mappings: the columns are the keys in the order they
  are first seen, and each mapping is a row.
\<close>

fun first_seen :: "'a list \<Rightarrow> 'a list \<Rightarrow> 'a list" where
  "first_seen seen [] = seen"
| "first_seen seen (k # ks) = first_seen (if k \<in> set seen then seen else seen @ [k]) ks"

definition DataFrame :: "(str \<times> json) list list \<Rightarrow> frame" where
  "DataFrame data = \<lparr>columns = first_seen [] (concat (map (map fst) data)), cells = data\<rparr>"

definition assets_frame :: "(json \<Rightarrow> str) \<Rightarrow> (str \<times> json) list list \<Rightarrow> frame" where
  "assets_frame dumps resources =
     (if resources = [] then DataFrame [[]]
      else DataFrame (map (flatten_row dumps) resources))"

definition resources_to_excel_pkg ::
  "(json \<Rightarrow> str) \<Rightarrow> pandas \<Rightarrow> (str \<times> json) list list \<Rightarrow> str \<Rightarrow>
   ((exn + unit) \<times> event list) option"
where
  "resources_to_excel_pkg dumps pd resources out_path =
     (let df = assets_frame dumps resources
      in case sanitize_sheet_name (lit ''assets'') {} of
           None \<Rightarrow> None
         | Some (sheet_name, used) \<Rightarrow>
             Some (let writing = [Log (lit ''Writing inventory to '' @ out_path)]
                   in case to_excel pd sheet_name df of
                        Some e \<Rightarrow> (Inl e, writing)
                      | None \<Rightarrow>
                          (case close_writer pd out_path [(sheet_name, df)] of
                             Some e \<Rightarrow> (Inl e, writing)
                           | None \<Rightarrow> (Inr (), writing @ [Save out_path [(sheet_name, df)]]))))"






section \<open>pandas and openpyxl on lists of mappings\<close>

text \<open>
  \<open>pandas.json_normalize\<close> (pandas 1.3 and later, as \<open>setup.py\<close> asks for) on a list of
  mappings: in each, the values that are no mappings keep their keys, and a value that is
  a mapping is replaced by its leaves, each under the keys on the way to it joined by
  dots. \<open>pandas.DataFrame\<close> on a list of mappings is \<open>DataFrame\<close> above. openpyxl
  refuses to save a workbook that has no sheet.
\<close>

fun normalise_json :: "str \<Rightarrow> json \<Rightarrow> (str \<times> json) list" where
  "normalise_json key_string (JDict kvs) =
     concat (map (\<lambda>(key, val).
                    normalise_json (if key_string = [] then key else key_string @ lit ''.'' @ key) val)
               kvs)"
| "normalise_json key_string v = [(key_string, v)]"

definition is_dict :: "json \<Rightarrow> bool" where
  "is_dict v = (case v of JDict d \<Rightarrow> True | _ \<Rightarrow> False)"

definition normalise_json_ordered :: "(str \<times> json) list \<Rightarrow> (str \<times> json) list" where
  "normalise_json_ordered d =
     filter (\<lambda>(k, v). \<not> is_dict v) d @ normalise_json [] (JDict (filter (\<lambda>(k, v). is_dict v) d))"

definition mappings_in :: "json \<Rightarrow> (str \<times> json) list list" where
  "mappings_in items =
     (case items of
        JList xs \<Rightarrow> concat (map (\<lambda>x. case x of JDict d \<Rightarrow> [d] | _ \<Rightarrow> []) xs)
      | _ \<Rightarrow> [])"

definition pandas_openpyxl :: "pandas" where
  "pandas_openpyxl =
     \<lparr>json_normalize = (\<lambda>items. Inr (DataFrame (map normalise_json_ordered (mappings_in items)))),
      DataFrame_of = (\<lambda>items. Inr (DataFrame (mappings_in items))),
      to_excel = (\<lambda>sheet_name df. None),
      close_writer = (\<lambda>path sheets.
        if sheets = [] then Some (Exception (lit ''At least one sheet must be visible'')) else None)\<rparr>"

section \<open>The standard library's \<open>json.dumps\<close> and \<open>json.loads\<close>\<close>

text \<open>
  \<open>json.dumps(v, ensure_ascii=False)\<close> as \<open>resources_to_excel\<close> of the package calls it:
  the separators are \<open>', '\<close> and \<open>': '\<close>; in a string the quote, the backslash and the
  control characters below 32 are escaped and every other character is written as it is.
  An \<open>int\<close> is written in decimal. What is written for a \<open>float\<close> (its \<open>repr\<close>, or
  \<open>NaN\<close>, \<open>Infinity\<close>, \<open>-Infinity\<close>) is the parameter \<open>float_repr\<close>.
\<close>

definition hex_char :: "nat \<Rightarrow> codepoint" where
  "hex_char d = (if d < 10 then 48 + d else 87 + d)"

definition escape_char :: "codepoint \<Rightarrow> str" where
  "escape_char c =
     (if c = 34 then [92, 34]
      else if c = 92 then [92, 92]
      else if c = 10 then [92, 110]
      else if c = 13 then [92, 114]
      else if c = 9 then [92, 116]
      else if c = 8 then [92, 98]
      else if c = 12 then [92, 102]
      else if c < 32 then [92, 117, 48, 48, hex_char (c div 16), hex_char (c mod 16)]
      else [c])"

definition encode_basestring :: "str \<Rightarrow> str" where
  "encode_basestring s = 34 # concat (map escape_char s) @ [34]"

definition int_repr :: "int \<Rightarrow> str" where
  "int_repr i = (if i < 0 then 45 # str_of_nat (nat (- i)) else str_of_nat (nat i))"

text \<open>\<open>sep.join(parts)\<close>.\<close>

fun join :: "'a list \<Rightarrow> 'a list list \<Rightarrow> 'a list" where
  "join sep [] = []"
| "join sep [x] = x"
| "join sep (x # y # ys) = x @ sep @ join sep (y # ys)"

fun json_dumps :: "(pyfloat \<Rightarrow> str) \<Rightarrow> json \<Rightarrow> str" where
  "json_dumps float_repr JNull = lit ''null''"
| "json_dumps float_repr (JBool b) = (if b then lit ''true'' else lit ''false'')"
| "json_dumps float_repr (JNum (PyInt i)) = int_repr i"
| "json_dumps float_repr (JNum (PyFloat x)) = float_repr x"
| "json_dumps float_repr (JStr s) = encode_basestring s"
| "json_dumps float_repr (JList xs) =
     (if xs = [] then lit ''[]''
      else lit ''['' @ join (lit '', '') (map (json_dumps float_repr) xs) @ lit '']'')"
| "json_dumps float_repr (JDict kvs) =
     (if kvs = [] then lit ''{}''
      else lit ''{'' @
           join (lit '', '')
             (map (\<lambda>(k, v). encode_basestring k @ lit '': '' @ json_dumps float_repr v) kvs) @
           lit ''}'')"

text \<open>
  \<open>json.loads\<close>: the scanner of \<open>json.decoder\<close> and \<open>json.scanner\<close>. White space is the
  four characters space, tab, line feed and carriage return.
\<close>

definition is_ws :: "codepoint \<Rightarrow> bool" where
  "is_ws c \<longleftrightarrow> c = 32 \<or> c = 9 \<or> c = 10 \<or> c = 13"

definition skip_ws :: "str \<Rightarrow> str" where
  "skip_ws s = dropWhile is_ws s"

definition is_digit :: "codepoint \<Rightarrow> bool" where
  "is_digit c \<longleftrightarrow> 48 \<le> c \<and> c \<le> 57"

definition hex_digit :: "codepoint \<Rightarrow> nat option" where
  "hex_digit c =
     (if 48 \<le> c \<and> c \<le> 57 then Some (c - 48)
      else if 97 \<le> c \<and> c \<le> 102 then Some (c - 87)
      else if 65 \<le> c \<and> c \<le> 70 then Some (c - 55)
      else None)"

text \<open>The four hexadecimal digits after \<open>\u\<close>; fewer than four, or another character, is an error.\<close>

definition decode_uXXXX :: "str \<Rightarrow> nat option" where
  "decode_uXXXX esc =
     (if length esc = 4 \<and> (\<forall>c\<in>set esc. hex_digit c \<noteq> None)
      then Some (foldl (\<lambda>a c. 16 * a + the (hex_digit c)) 0 esc)
      else None)"

text \<open>The table \<open>BACKSLASH\<close> of the escapes of one character.\<close>

definition unescape :: "codepoint \<Rightarrow> codepoint option" where
  "unescape esc =
     (if esc = 34 then Some 34
      else if esc = 92 then Some 92
      else if esc = 47 then Some 47
      else if esc = 98 then Some 8
      else if esc = 102 then Some 12
      else if esc = 110 then Some 10
      else if esc = 114 then Some 13
      else if esc = 116 then Some 9
      else None)"

definition prepend :: "codepoint \<Rightarrow> (str \<times> str) option \<Rightarrow> (str \<times> str) option" where
  "prepend c r = (case r of None \<Rightarrow> None | Some (s, rest) \<Rightarrow> Some (c # s, rest))"

text \<open>
  \<open>scanstring\<close> in strict mode, on the text after the opening quote: the string and the
  text after the closing quote. A high surrogate escape directly followed by a low
  surrogate escape is one character.
\<close>

function scanstring :: "str \<Rightarrow> (str \<times> str) option" where
  "scanstring [] = None"
| "scanstring (c # cs) =
     (if c = 34 then Some ([], cs)
      else if c = 92 then
        (case cs of
           [] \<Rightarrow> None
         | esc # rest \<Rightarrow>
             if esc = 117 then
               (case decode_uXXXX (take 4 rest) of
                  None \<Rightarrow> None
                | Some uni \<Rightarrow>
                    if 55296 \<le> uni \<and> uni \<le> 56319 \<and> take 2 (drop 4 rest) = [92, 117]
                    then (case decode_uXXXX (take 4 (drop 6 rest)) of
                            None \<Rightarrow> None
                          | Some uni2 \<Rightarrow>
                              if 56320 \<le> uni2 \<and> uni2 \<le> 57343
                              then prepend (65536 + ((uni - 55296) * 1024 + (uni2 - 56320)))
                                     (scanstring (drop 10 rest))
                              else prepend uni (scanstring (drop 4 rest)))
                    else prepend uni (scanstring (drop 4 rest)))
             else (case unescape esc of
                     None \<Rightarrow> None
                   | Some ch \<Rightarrow> prepend ch (scanstring rest)))
      else if c < 32 then None
      else prepend c (scanstring cs))"
  by pat_completeness auto
termination
  by (relation "measure length") auto

declare scanstring.simps [simp del]

text \<open>The value of a string of decimal digits, and \<open>int\<close> of an optional minus sign and digits.\<close>

definition nat_of_digits :: "str \<Rightarrow> nat" where
  "nat_of_digits ds = foldl (\<lambda>a d. 10 * a + (d - 48)) 0 ds"

definition int_of_token :: "str \<Rightarrow> int" where
  "int_of_token t =
     (case t of
        [] \<Rightarrow> 0
      | c # ds \<Rightarrow> if c = 45 then - int (nat_of_digits ds) else int (nat_of_digits t))"

text \<open>
  The number branch of the scanner: the longest match of
  \<open>(-?(?:0|[1-9][0-9]*))(\.[0-9]+)?([eE][-+]?[0-9]+)?\<close>, read by \<open>float\<close> (the parameter
  \<open>float_of\<close>) when it has a fraction or an exponent and by \<open>int\<close> otherwise; and, where
  nothing matches, the constants \<open>NaN\<close>, \<open>Infinity\<close> and \<open>-Infinity\<close>.
\<close>

definition match_integer :: "str \<Rightarrow> str" where
  "match_integer s =
     (let sign = (if s \<noteq> [] \<and> hd s = 45 then [45] else []);
          s1 = drop (length sign) s;
          digits = (if s1 = [] then []
                    else if hd s1 = 48 then [48]
                    else if 49 \<le> hd s1 \<and> hd s1 \<le> 57 then takeWhile is_digit s1
                    else [])
      in if digits = [] then [] else sign @ digits)"

definition match_frac :: "str \<Rightarrow> str" where
  "match_frac s =
     (if s \<noteq> [] \<and> hd s = 46 \<and> tl s \<noteq> [] \<and> is_digit (hd (tl s))
      then 46 # takeWhile is_digit (tl s) else [])"

definition match_exp :: "str \<Rightarrow> str" where
  "match_exp s =
     (if s \<noteq> [] \<and> (hd s = 101 \<or> hd s = 69)
      then (let t = tl s;
                sign = (if t \<noteq> [] \<and> (hd t = 43 \<or> hd t = 45) then [hd t] else []);
                digits = takeWhile is_digit (drop (length sign) t)
            in if digits = [] then [] else hd s # sign @ digits)
      else [])"

definition match_number :: "(str \<Rightarrow> pyfloat) \<Rightarrow> str \<Rightarrow> (json \<times> str) option" where
  "match_number float_of s =
     (let integer = match_integer s
      in if integer \<noteq> []
         then (let s2 = drop (length integer) s;
                   frac = match_frac s2;
                   s3 = drop (length frac) s2;
                   exp = match_exp s3;
                   rest = drop (length exp) s3
               in if frac \<noteq> [] \<or> exp \<noteq> []
                  then Some (JNum (PyFloat (float_of (integer @ frac @ exp))), rest)
                  else Some (JNum (PyInt (int_of_token integer)), rest))
         else if take 3 s = lit ''NaN'' then Some (JNum (PyFloat (float_of (lit ''NaN''))), drop 3 s)
         else if take 8 s = lit ''Infinity''
         then Some (JNum (PyFloat (float_of (lit ''Infinity''))), drop 8 s)
         else if take 9 s = lit ''-Infinity''
         then Some (JNum (PyFloat (float_of (lit ''-Infinity''))), drop 9 s)
         else None)"

text \<open>
  \<open>dict(pairs)\<close>: a key that comes again keeps its place and takes the later value.
\<close>

definition dict_set :: "(str \<times> json) list \<Rightarrow> str \<Rightarrow> json \<Rightarrow> (str \<times> json) list" where
  "dict_set d k v =
     (if k \<in> fst ` set d then map (\<lambda>(k', v'). if k' = k then (k', v) else (k', v')) d
      else d @ [(k, v)])"

definition dict_of :: "(str \<times> json) list \<Rightarrow> (str \<times> json) list" where
  "dict_of pairs = foldl (\<lambda>d (k, v). dict_set d k v) [] pairs"

text \<open>
  \<open>scan_once\<close>, with the loop of \<open>JSONArray\<close> (on the text at an element) and the loop of
  \<open>JSONObject\<close> (on the text after the opening quote of a key). The first argument after
  \<open>float_of\<close> bounds the nesting of calls; \<open>json_loads\<close> starts with the length of the
  text, which no scan exceeds since every call consumes a character.
\<close>

fun scan_once :: "(str \<Rightarrow> pyfloat) \<Rightarrow> nat \<Rightarrow> str \<Rightarrow> (json \<times> str) option"
  and JSONArray :: "(str \<Rightarrow> pyfloat) \<Rightarrow> nat \<Rightarrow> str \<Rightarrow> (json list \<times> str) option"
  and JSONObject :: "(str \<Rightarrow> pyfloat) \<Rightarrow> nat \<Rightarrow> str \<Rightarrow> ((str \<times> json) list \<times> str) option"
where
  "scan_once float_of 0 s = None"
| "scan_once float_of (Suc n) s =
     (if s = [] then None
      else if hd s = 34 then
        (case scanstring (tl s) of None \<Rightarrow> None | Some (text, rest) \<Rightarrow> Some (JStr text, rest))
      else if hd s = 123 then
        (let s1 = skip_ws (tl s)
         in if s1 = [] then None
            else if hd s1 = 125 then Some (JDict [], tl s1)
            else if hd s1 = 34 then
              (case JSONObject float_of n (tl s1) of
                 None \<Rightarrow> None
               | Some (pairs, rest) \<Rightarrow> Some (JDict (dict_of pairs), rest))
            else None)
      else if hd s = 91 then
        (let s1 = skip_ws (tl s)
         in if s1 = [] then None
            else if hd s1 = 93 then Some (JList [], tl s1)
            else (case JSONArray float_of n s1 of
                    None \<Rightarrow> None
                  | Some (values, rest) \<Rightarrow> Some (JList values, rest)))
      else if take 4 s = lit ''null'' then Some (JNull, drop 4 s)
      else if take 4 s = lit ''true'' then Some (JBool True, drop 4 s)
      else if take 5 s = lit ''false'' then Some (JBool False, drop 5 s)
      else match_number float_of s)"
| "JSONArray float_of 0 s = None"
| "JSONArray float_of (Suc n) s =
     (case scan_once float_of n s of
        None \<Rightarrow> None
      | Some (v, rest) \<Rightarrow>
          (let s1 = skip_ws rest
           in if s1 = [] then None
              else if hd s1 = 93 then Some ([v], tl s1)
              else if hd s1 = 44 then
                (case JSONArray float_of n (skip_ws (tl s1)) of
                   None \<Rightarrow> None
                 | Some (values, rest') \<Rightarrow> Some (v # values, rest'))
              else None))"
| "JSONObject float_of 0 s = None"
| "JSONObject float_of (Suc n) s =
     (case scanstring s of
        None \<Rightarrow> None
      | Some (key, rest) \<Rightarrow>
          (let s1 = skip_ws rest
           in if s1 = [] \<or> hd s1 \<noteq> 58 then None
              else (case scan_once float_of n (skip_ws (tl s1)) of
                      None \<Rightarrow> None
                    | Some (v, rest2) \<Rightarrow>
                        (let s2 = skip_ws rest2
                         in if s2 = [] then None
                            else if hd s2 = 125 then Some ([(key, v)], tl s2)
                            else if hd s2 = 44 then
                              (let s3 = skip_ws (tl s2)
                               in if s3 = [] \<or> hd s3 \<noteq> 34 then None
                                  else (case JSONObject float_of n (tl s3) of
                                          None \<Rightarrow> None
                                        | Some (pairs, rest') \<Rightarrow> Some ((key, v) # pairs, rest')))
                            else None))))"

text \<open>
  \<open>json.loads\<close>: no byte order mark at the start, one value between white space, and
  nothing after it.
\<close>

definition json_loads :: "(str \<Rightarrow> pyfloat) \<Rightarrow> str \<Rightarrow> json option" where
  "json_loads float_of s =
     (if s \<noteq> [] \<and> hd s = 65279 then None
      else (case scan_once float_of (length s) (skip_ws s) of
              None \<Rightarrow> None
            | Some (v, rest) \<Rightarrow> if skip_ws rest = [] then Some v else None))"

text \<open>
  A value as Python builds it has distinct keys in each of its mappings.
\<close>

fun distinct_keys :: "json \<Rightarrow> bool" where
  "distinct_keys (JList xs) = (\<forall>x\<in>set xs. distinct_keys x)"
| "distinct_keys (JDict kvs) = (distinct (map fst kvs) \<and> (\<forall>(k, v)\<in>set kvs. distinct_keys v))"
| "distinct_keys v = True"

text \<open>
  What is assumed of the floats of a value, the two parameters being Python's own: the
  text written for a float is \<open>NaN\<close>, \<open>Infinity\<close>, \<open>-Infinity\<close> or a number with a fraction
  or an exponent, all of which the number pattern matches, and \<open>float\<close> of that text is
  the float again.
\<close>

fun floats_of :: "json \<Rightarrow> pyfloat set" where
  "floats_of (JNum (PyFloat x)) = {x}"
| "floats_of (JList xs) = (\<Union>x\<in>set xs. floats_of x)"
| "floats_of (JDict kvs) = (\<Union>(k, v)\<in>set kvs. floats_of v)"
| "floats_of v = {}"

definition is_float_text :: "str \<Rightarrow> bool" where
  "is_float_text t \<longleftrightarrow>
     t = lit ''NaN'' \<or> t = lit ''Infinity'' \<or> t = lit ''-Infinity'' \<or>
     (let integer = match_integer t;
          frac = match_frac (drop (length integer) t);
          exp = match_exp (drop (length integer + length frac) t)
      in integer \<noteq> [] \<and> (frac \<noteq> [] \<or> exp \<noteq> []) \<and> t = integer @ frac @ exp)"

definition floats_read_back :: "(pyfloat \<Rightarrow> str) \<Rightarrow> (str \<Rightarrow> pyfloat) \<Rightarrow> json \<Rightarrow> bool" where
  "floats_read_back float_repr float_of v \<longleftrightarrow>
     (\<forall>x\<in>floats_of v. is_float_text (float_repr x) \<and> float_of (float_repr x) = x)"

text \<open>
  The text that may follow a value inside the text of another: nothing, a comma or a
  closing bracket. The characters a value may start with. The text of one member of a
  mapping.
\<close>

definition delimited :: "str \<Rightarrow> bool" where
  "delimited rest \<longleftrightarrow> rest = [] \<or> hd rest = 44 \<or> hd rest = 93 \<or> hd rest = 125"

definition value_start :: "codepoint \<Rightarrow> bool" where
  "value_start c \<longleftrightarrow>
     c = 34 \<or> c = 123 \<or> c = 91 \<or> c = 110 \<or> c = 116 \<or> c = 102 \<or> c = 45 \<or> is_digit c \<or>
     c = 78 \<or> c = 73"

definition member_text :: "(json \<Rightarrow> str) \<Rightarrow> str \<times> json \<Rightarrow> str" where
  "member_text D kv = encode_basestring (fst kv) @ [58, 32] @ D (snd kv)"

section \<open>Facts about decimal numerals and suffixes\<close>

lemma str_of_nat_digits: "set (str_of_nat n) \<subseteq> {48..57}"
proof (induction n rule: str_of_nat.induct)
  case (1 n)
  show ?case
  proof (cases "n < 10")
    case True
    then show ?thesis by (subst str_of_nat.simps) simp
  next
    case False
    have "n mod 10 < 10" by simp
    then have "48 + n mod 10 \<in> {48..57}" by simp
    with False 1 show ?thesis by (subst str_of_nat.simps) simp
  qed
qed

lemma str_of_nat_not_Nil: "str_of_nat n \<noteq> []"
  by (subst str_of_nat.simps) simp

lemma str_of_nat_last: "last (str_of_nat n) = 48 + n mod 10"
  by (subst str_of_nat.simps) simp

lemma str_of_nat_butlast: "10 \<le> n \<Longrightarrow> butlast (str_of_nat n) = str_of_nat (n div 10)"
  by (subst str_of_nat.simps) simp

lemma str_of_nat_length1: "length (str_of_nat n) = Suc 0 \<longleftrightarrow> n < 10"
  by (subst str_of_nat.simps) (simp add: str_of_nat_not_Nil)

lemma str_of_nat_inj: "str_of_nat n = str_of_nat m \<Longrightarrow> n = m"
proof (induction n arbitrary: m rule: str_of_nat.induct)
  case (1 n)
  note eq = \<open>str_of_nat n = str_of_nat m\<close>
  have len: "length (str_of_nat n) = length (str_of_nat m)"
    by (rule arg_cong [OF eq])
  have "last (str_of_nat n) = last (str_of_nat m)"
    by (rule arg_cong [OF eq])
  then have md: "n mod 10 = m mod 10"
    by (simp add: str_of_nat_last)
  show ?case
  proof (cases "n < 10")
    case True
    then have "length (str_of_nat m) = Suc 0"
      using len str_of_nat_length1 [of n] by simp
    then have "m < 10" by (simp add: str_of_nat_length1)
    with True md show ?thesis by simp
  next
    case False
    then have "length (str_of_nat m) \<noteq> Suc 0"
      using len str_of_nat_length1 [of n] by simp
    then have m: "\<not> m < 10" by (simp add: str_of_nat_length1)
    have "butlast (str_of_nat n) = butlast (str_of_nat m)"
      by (rule arg_cong [OF eq])
    with False m have "str_of_nat (n div 10) = str_of_nat (m div 10)"
      by (simp add: str_of_nat_butlast)
    with "1.IH" False have d: "n div 10 = m div 10" by blast
    have "n = 10 * (n div 10) + n mod 10" by simp
    also have "\<dots> = 10 * (m div 10) + m mod 10" using d md by simp
    also have "\<dots> = m" by simp
    finally show ?thesis .
  qed
qed

lemma str_of_nat_length: "0 < m \<Longrightarrow> n < 10 ^ m \<Longrightarrow> length (str_of_nat n) \<le> m"
proof (induction n arbitrary: m rule: str_of_nat.induct)
  case (1 n)
  show ?case
  proof (cases "n < 10")
    case True
    then have "length (str_of_nat n) = Suc 0" by (simp add: str_of_nat_length1)
    with "1.prems" show ?thesis by simp
  next
    case False
    obtain m' where m: "m = Suc m'" using "1.prems"(1) by (cases m) auto
    have "0 < m'"
    proof (rule ccontr)
      assume "\<not> 0 < m'"
      with m "1.prems"(2) False show False by simp
    qed
    from "1.prems"(2) m have "n < 10 * 10 ^ m'" by simp
    then have "n div 10 < 10 ^ m'" by (simp add: less_mult_imp_div_less mult.commute)
    with "1.IH" [OF False \<open>0 < m'\<close>] have "length (str_of_nat (n div 10)) \<le> m'" by simp
    with False m show ?thesis by (subst str_of_nat.simps) simp
  qed
qed

lemma split_at_last:
  assumes "c \<notin> set d1" "c \<notin> set d2" "X @ c # d1 = Y @ c # d2"
  shows "X = Y \<and> d1 = d2"
proof -
  have tail: "us = [] \<and> e1 = e2" if "us @ c # e1 = c # e2" "c \<notin> set e2" for us e1 e2 :: "'a list"
  proof (cases us)
    case Nil
    with that(1) show ?thesis by simp
  next
    case (Cons u us')
    with that(1) have "e2 = us' @ c # e1" by simp
    with that(2) show ?thesis by simp
  qed
  from assms(3) obtain us where
    "(X = Y @ us \<and> us @ c # d1 = c # d2) \<or> (X @ us = Y \<and> c # d1 = us @ c # d2)"
    by (auto simp: append_eq_append_conv2)
  then show ?thesis
  proof
    assume a: "X = Y @ us \<and> us @ c # d1 = c # d2"
    then have "us @ c # d1 = c # d2" by (rule conjunct2)
    then have "us = [] \<and> d1 = d2" using assms(2) by (rule tail)
    moreover from a have "X = Y @ us" by (rule conjunct1)
    ultimately show ?thesis by simp
  next
    assume a: "X @ us = Y \<and> c # d1 = us @ c # d2"
    then have "c # d1 = us @ c # d2" by (rule conjunct2)
    then have "us @ c # d2 = c # d1" by (rule sym)
    then have "us = [] \<and> d2 = d1" using assms(1) by (rule tail)
    moreover from a have "X @ us = Y" by (rule conjunct1)
    ultimately show ?thesis by auto
  qed
qed

lemma suffix_of_not_Nil: "suffix_of i \<noteq> []"
  by (simp add: suffix_of_def)

lemma suffix_of_inj:
  assumes "X @ suffix_of i = Y @ suffix_of j"
  shows "i = j"
proof -
  have "95 \<notin> set (str_of_nat i)" "95 \<notin> set (str_of_nat j)"
    using str_of_nat_digits [of i] str_of_nat_digits [of j] by auto
  with assms have "str_of_nat i = str_of_nat j"
    unfolding suffix_of_def by (blast dest: split_at_last)
  then show ?thesis by (rule str_of_nat_inj)
qed

lemma length_suffix_of: "i < 10 ^ 30 \<Longrightarrow> length (suffix_of i) \<le> 31"
  using str_of_nat_length [of 30 i] by (simp add: suffix_of_def)

lemma suffix_of_digits: "set (suffix_of i) \<subseteq> insert 95 {48..57}"
  using str_of_nat_digits [of i] by (auto simp: suffix_of_def)

lemma isspace_suffix_last: "\<not> isspace (last (suffix_of i))"
proof -
  have "i mod 10 < 10" by simp
  then have "\<not> isspace (48 + i mod 10)" unfolding isspace_def by linarith
  then show ?thesis by (simp add: suffix_of_def str_of_nat_not_Nil str_of_nat_last)
qed

lemma first_free:
  assumes "finite U" "inj f"
  shows "\<exists>k\<ge>1. f k \<notin> U \<and> (\<forall>j. 1 \<le> j \<and> j < k \<longrightarrow> f j \<in> U) \<and> k \<le> card U + 1"
proof -
  have "\<exists>k\<ge>(1::nat). f k \<notin> U"
  proof (rule ccontr)
    assume "\<not> (\<exists>k\<ge>(1::nat). f k \<notin> U)"
    then have "f ` {1..} \<subseteq> U" by auto
    with \<open>finite U\<close> have "finite (f ` {1..})" by (rule rev_finite_subset)
    moreover have "inj_on f {1..}" using \<open>inj f\<close> by (rule inj_on_subset) simp
    ultimately have "finite {1::nat..}" by (rule finite_imageD)
    then show False by (simp add: infinite_Ici)
  qed
  then obtain k0 where k0: "1 \<le> k0 \<and> f k0 \<notin> U" by blast
  define k where "k = (LEAST k. 1 \<le> k \<and> f k \<notin> U)"
  have k: "1 \<le> k \<and> f k \<notin> U" unfolding k_def using k0 by (rule LeastI)
  have below: "f j \<in> U" if "1 \<le> j" "j < k" for j
    using that not_less_Least [of j "\<lambda>k. 1 \<le> k \<and> f k \<notin> U"] by (auto simp: k_def)
  then have "f ` {1..<k} \<subseteq> U" by auto
  with \<open>finite U\<close> have "card (f ` {1..<k}) \<le> card U" by (simp add: card_mono)
  moreover have "inj_on f {1..<k}" using \<open>inj f\<close> by (rule inj_on_subset) simp
  then have "card (f ` {1..<k}) = k - 1" by (simp add: card_image)
  ultimately have "k \<le> card U + 1" by simp
  with k below show ?thesis by blast
qed

lemma next_name_form: "\<exists>n. next_name base i = take n base @ suffix_of i"
proof (cases "length base + length (suffix_of i) > 31")
  case True
  then show ?thesis by (auto simp: next_name_def slice_to_def Let_def)
next
  case False
  then have "next_name base i = take (length base) base @ suffix_of i"
    by (simp add: next_name_def Let_def)
  then show ?thesis by blast
qed

lemma next_name_inj: "inj (next_name base)"
proof (rule injI)
  fix i j assume eq: "next_name base i = next_name base j"
  obtain n where n: "next_name base i = take n base @ suffix_of i" using next_name_form by blast
  obtain m where m: "next_name base j = take m base @ suffix_of j" using next_name_form by blast
  from eq n m show "i = j" by (auto dest: suffix_of_inj)
qed

lemma next_name_not_Nil: "next_name base i \<noteq> []"
  using next_name_form [of base i] by (auto simp: suffix_of_not_Nil)

lemma sanitize_loop_search:
  assumes "i \<le> k" "\<forall>j. i \<le> j \<and> j < k \<longrightarrow> next_name base j \<in> used" "next_name base k \<notin> used"
  shows "sanitize_loop used base (next_name base i) (i + 1) = Some (next_name base k)"
  using assms
proof (induction "k - i" arbitrary: i)
  case 0
  then have "i = k" by simp
  with 0 show ?case by (subst sanitize_loop.simps) (simp add: next_name_not_Nil)
next
  case (Suc d)
  then have "i < k" by simp
  with Suc.prems have "next_name base i \<in> used" by simp
  then have "sanitize_loop used base (next_name base i) (i + 1)
             = sanitize_loop used base (next_name base (i + 1)) (i + 1 + 1)"
    by (subst sanitize_loop.simps) simp
  also have "\<dots> = Some (next_name base k)"
    using Suc.hyps Suc.prems \<open>i < k\<close> by (intro Suc.hyps(1)) auto
  finally show ?case .
qed

lemma sanitize_loop_result:
  assumes "finite U"
  shows "\<exists>r. sanitize_loop U base base 1 = Some r \<and> r \<notin> U \<and> r \<noteq> [] \<and>
           ((base \<notin> U \<and> base \<noteq> [] \<and> r = base) \<or>
            ((base \<in> U \<or> base = []) \<and>
             (\<exists>k\<ge>1. r = next_name base k \<and> (\<forall>j. 1 \<le> j \<and> j < k \<longrightarrow> next_name base j \<in> U) \<and>
                    k \<le> card U + 1)))"
proof (cases "base \<in> U \<or> base = []")
  case False
  then have "sanitize_loop U base base 1 = Some base"
    by (subst sanitize_loop.simps) simp
  with False show ?thesis by simp
next
  case True
  from first_free [OF assms next_name_inj [of base]]
  obtain k where k: "1 \<le> k" "next_name base k \<notin> U"
      "\<forall>j. 1 \<le> j \<and> j < k \<longrightarrow> next_name base j \<in> U" "k \<le> card U + 1"
    by blast
  from True have "sanitize_loop U base base 1 = sanitize_loop U base (next_name base 1) (1 + 1)"
    by (subst sanitize_loop.simps) simp
  also have "\<dots> = Some (next_name base k)"
    using k by (intro sanitize_loop_search) auto
  finally show ?thesis using True k by (auto simp: next_name_not_Nil)
qed

lemma sanitize_result:
  assumes "finite U"
  shows "\<exists>r. sanitize name U = Some (r, insert r U) \<and> r \<notin> U \<and> r \<noteq> [] \<and>
           ((candidate name \<notin> U \<and> candidate name \<noteq> [] \<and> r = candidate name) \<or>
            ((candidate name \<in> U \<or> candidate name = []) \<and>
             (\<exists>k\<ge>1. r = next_name (candidate name) k \<and>
                    (\<forall>j. 1 \<le> j \<and> j < k \<longrightarrow> next_name (candidate name) j \<in> U) \<and>
                    k \<le> card U + 1)))"
proof -
  from sanitize_loop_result [OF assms, of "candidate name"]
  obtain r where r: "sanitize_loop U (candidate name) (candidate name) 1 = Some r"
    and rest: "r \<notin> U \<and> r \<noteq> [] \<and>
           ((candidate name \<notin> U \<and> candidate name \<noteq> [] \<and> r = candidate name) \<or>
            ((candidate name \<in> U \<or> candidate name = []) \<and>
             (\<exists>k\<ge>1. r = next_name (candidate name) k \<and>
                    (\<forall>j. 1 \<le> j \<and> j < k \<longrightarrow> next_name (candidate name) j \<in> U) \<and>
                    k \<le> card U + 1)))"
    by blast
  from r have "sanitize name U = Some (r, insert r U)"
    by (simp add: sanitize_def Let_def)
  with rest show ?thesis by blast
qed


lemma strip_id:
  assumes "s \<noteq> []" "\<not> isspace (hd s)" "\<not> isspace (last s)"
  shows "strip s = s"
proof -
  from assms have "dropWhile isspace s = s" by (cases s) auto
  moreover from assms have "dropWhile isspace (rev s) = rev s"
    by (cases "rev s") (auto simp: last_rev hd_rev)
  ultimately show ?thesis by (simp add: strip_def)
qed

lemma strip_ends:
  assumes "strip s \<noteq> []"
  shows "\<not> isspace (hd (strip s)) \<and> \<not> isspace (last (strip s))"
proof -
  define y where "y = dropWhile isspace s"
  define z where "z = dropWhile isspace (rev y)"
  have st: "strip s = rev z" by (simp add: strip_def y_def z_def)
  with assms have z: "z \<noteq> []" by simp
  then have "\<not> isspace (hd z)" unfolding z_def by (rule hd_dropWhile)
  then have l: "\<not> isspace (last (strip s))" using z by (simp add: st last_rev)
  have "rev y = takeWhile isspace (rev y) @ z" by (simp add: z_def)
  then have "last (rev y) = last z" using z by (metis last_appendR)
  moreover from z have y: "y \<noteq> []" by (auto simp: z_def)
  ultimately have "hd y = last z" by (simp add: last_rev)
  moreover from y have "\<not> isspace (hd y)" unfolding y_def by (rule hd_dropWhile)
  ultimately have "\<not> isspace (hd (strip s))" using z by (simp add: st hd_rev)
  with l show ?thesis by simp
qed

lemma strip_suffix_of: "strip (X @ suffix_of i) = dropWhile isspace X @ suffix_of i"
proof -
  have ns: "\<not> isspace 95" by (simp add: isspace_def)
  have a: "dropWhile isspace (X @ suffix_of i) = dropWhile isspace X @ suffix_of i"
    by (simp add: dropWhile_append suffix_of_def ns)
  have "rev (dropWhile isspace X @ suffix_of i) = rev (suffix_of i) @ rev (dropWhile isspace X)"
    by simp
  moreover have "rev (suffix_of i) \<noteq> []" by (simp add: suffix_of_not_Nil)
  moreover have "\<not> isspace (hd (rev (suffix_of i)))"
    using isspace_suffix_last [of i] by (simp add: hd_rev suffix_of_not_Nil)
  ultimately have "dropWhile isspace (rev (dropWhile isspace X @ suffix_of i))
                   = rev (dropWhile isspace X @ suffix_of i)"
    by (cases "rev (suffix_of i)") auto
  with a show ?thesis by (simp add: strip_def)
qed

lemma next_sheet_name_form:
  "next_sheet_name base i =
     dropWhile isspace (slice_to base (31 - int (length (suffix_of i)))) @ suffix_of i"
  by (simp add: next_sheet_name_def Let_def MAX_SHEET_LEN_def strip_suffix_of)

lemma next_sheet_name_inj: "inj (next_sheet_name base)"
proof (rule injI)
  fix i j assume "next_sheet_name base i = next_sheet_name base j"
  then show "i = j" unfolding next_sheet_name_form by (rule suffix_of_inj)
qed

lemma sheet_name_loop_search:
  assumes "i \<le> k" "\<forall>j. i \<le> j \<and> j < k \<longrightarrow> next_sheet_name base j \<in> used"
    "next_sheet_name base k \<notin> used"
  shows "sheet_name_loop used base (next_sheet_name base i) (i + 1) = Some (next_sheet_name base k)"
  using assms
proof (induction "k - i" arbitrary: i)
  case 0
  then have "i = k" by simp
  with 0 show ?case by (subst sheet_name_loop.simps) simp
next
  case (Suc d)
  then have "i < k" by simp
  with Suc.prems have "next_sheet_name base i \<in> used" by simp
  then have "sheet_name_loop used base (next_sheet_name base i) (i + 1)
             = sheet_name_loop used base (next_sheet_name base (i + 1)) (i + 1 + 1)"
    by (subst sheet_name_loop.simps) simp
  also have "\<dots> = Some (next_sheet_name base k)"
    using Suc.hyps Suc.prems \<open>i < k\<close> by (intro Suc.hyps(1)) auto
  finally show ?case .
qed

lemma sheet_name_loop_result:
  assumes "finite U"
  shows "\<exists>r. sheet_name_loop U base base 1 = Some r \<and> r \<notin> U \<and>
           ((base \<notin> U \<and> r = base) \<or>
            (base \<in> U \<and>
             (\<exists>k\<ge>1. r = next_sheet_name base k \<and>
                    (\<forall>j. 1 \<le> j \<and> j < k \<longrightarrow> next_sheet_name base j \<in> U) \<and> k \<le> card U + 1)))"
proof (cases "base \<in> U")
  case False
  then have "sheet_name_loop U base base 1 = Some base"
    by (subst sheet_name_loop.simps) simp
  with False show ?thesis by simp
next
  case True
  from first_free [OF assms next_sheet_name_inj [of base]]
  obtain k where k: "1 \<le> k" "next_sheet_name base k \<notin> U"
      "\<forall>j. 1 \<le> j \<and> j < k \<longrightarrow> next_sheet_name base j \<in> U" "k \<le> card U + 1"
    by blast
  from True have "sheet_name_loop U base base 1
                  = sheet_name_loop U base (next_sheet_name base 1) (1 + 1)"
    by (subst sheet_name_loop.simps) simp
  also have "\<dots> = Some (next_sheet_name base k)"
    using k by (intro sheet_name_loop_search) auto
  finally show ?thesis using True k by auto
qed

lemma sanitize_sheet_name_result:
  assumes "finite U"
  shows "\<exists>r. sanitize_sheet_name name U = Some (r, insert r U) \<and> r \<notin> U \<and>
           ((sheet_candidate name \<notin> U \<and> r = sheet_candidate name) \<or>
            (sheet_candidate name \<in> U \<and>
             (\<exists>k\<ge>1. r = next_sheet_name (sheet_candidate name) k \<and>
                    (\<forall>j. 1 \<le> j \<and> j < k \<longrightarrow> next_sheet_name (sheet_candidate name) j \<in> U) \<and>
                    k \<le> card U + 1)))"
proof -
  from sheet_name_loop_result [OF assms, of "sheet_candidate name"]
  obtain r where r: "sheet_name_loop U (sheet_candidate name) (sheet_candidate name) 1 = Some r"
    and rest: "r \<notin> U \<and>
           ((sheet_candidate name \<notin> U \<and> r = sheet_candidate name) \<or>
            (sheet_candidate name \<in> U \<and>
             (\<exists>k\<ge>1. r = next_sheet_name (sheet_candidate name) k \<and>
                    (\<forall>j. 1 \<le> j \<and> j < k \<longrightarrow> next_sheet_name (sheet_candidate name) j \<in> U) \<and>
                    k \<le> card U + 1)))"
    by blast
  from r have "sanitize_sheet_name name U = Some (r, insert r U)"
    by (simp add: sanitize_sheet_name_def Let_def)
  with rest show ?thesis by blast
qed

lemma sheet_candidate_ends:
  "sheet_candidate name \<noteq> [] \<and> \<not> isspace (hd (sheet_candidate name)) \<and>
   \<not> isspace (last (sheet_candidate name))"
proof (cases "strip (slice_to (filter (\<lambda>ch. ch \<notin> INVALID_SHEET_CHARS) name) MAX_SHEET_LEN) = []")
  case True
  then have "sheet_candidate name = lit ''sheet''" by (simp add: sheet_candidate_def Let_def)
  then show ?thesis by (simp add: lit_def isspace_def)
next
  case False
  then have "sheet_candidate name
             = strip (slice_to (filter (\<lambda>ch. ch \<notin> INVALID_SHEET_CHARS) name) MAX_SHEET_LEN)"
    by (simp add: sheet_candidate_def Let_def)
  with False strip_ends [OF False] show ?thesis by simp
qed

lemma next_sheet_name_clean:
  assumes "\<not> isspace (hd base)"
  shows "next_sheet_name base i = slice_to base (31 - int (length (suffix_of i))) @ suffix_of i"
proof -
  have "\<exists>n. slice_to base (31 - int (length (suffix_of i))) = take n base"
    by (auto simp: slice_to_def)
  then obtain n where n: "slice_to base (31 - int (length (suffix_of i))) = take n base" ..
  have "dropWhile isspace (take n base) = take n base"
  proof (cases "take n base")
    case Nil
    then show ?thesis by auto
  next
    case (Cons x xs)
    then have "x = hd base" by (cases base; cases n) auto
    with assms Cons show ?thesis by simp
  qed
  with n show ?thesis by (simp add: next_sheet_name_form)
qed

section \<open>Validity and length of the names\<close>

lemma slice_to_take: "\<exists>n. slice_to xs m = take n xs"
  by (auto simp: slice_to_def)

lemma set_slice_to: "set (slice_to xs m) \<subseteq> set xs"
  using slice_to_take [of xs m] by (auto dest: in_set_takeD)

lemma suffix_of_valid: "set (suffix_of i) \<inter> set invalid = {}"
  using suffix_of_digits [of i] by (auto simp: invalid_def)

lemma candidate_length: "length (candidate name) \<le> 31"
  by (simp add: candidate_def slice_to_def)

lemma candidate_valid: "set (candidate name) \<inter> set invalid = {}"
proof -
  have "set (replace_invalid name) \<inter> set invalid = {}"
    by (auto simp: replace_invalid_def invalid_def split: if_splits)
  with set_slice_to [of "replace_invalid name" 31] show ?thesis
    unfolding candidate_def by blast
qed

lemma next_name_valid:
  assumes "set base \<inter> set invalid = {}"
  shows "set (next_name base i) \<inter> set invalid = {}"
proof -
  obtain n where "next_name base i = take n base @ suffix_of i"
    using next_name_form by blast
  moreover have "set (take n base) \<subseteq> set base" by (rule set_take_subset)
  ultimately show ?thesis using assms suffix_of_valid [of i] by auto
qed

lemma next_name_explicit:
  assumes "i < 10 ^ 30"
  shows "next_name base i =
           (if length base + length (suffix_of i) > 31
            then take (31 - length (suffix_of i)) base else base) @ suffix_of i"
proof -
  from assms have "length (suffix_of i) \<le> 31" by (rule length_suffix_of)
  then have "slice_to base (31 - int (length (suffix_of i))) = take (31 - length (suffix_of i)) base"
    by (simp add: slice_to_def nat_diff_distrib')
  then show ?thesis by (simp add: next_name_def Let_def)
qed

lemma next_name_length:
  assumes "i < 10 ^ 30" "length base \<le> 31"
  shows "length (next_name base i) \<le> 31"
proof -
  from assms(1) have "length (suffix_of i) \<le> 31" by (rule length_suffix_of)
  then show ?thesis using assms(2) by (simp add: next_name_explicit [OF assms(1)])
qed

lemma strip_subset: "set (strip s) \<subseteq> set s"
proof -
  have "set (strip s) = set (dropWhile isspace (rev (dropWhile isspace s)))"
    by (simp add: strip_def)
  also have "\<dots> \<subseteq> set (rev (dropWhile isspace s))" by (rule set_dropWhileD [THEN subsetI])
  also have "\<dots> \<subseteq> set s" by (auto dest: set_dropWhileD)
  finally show ?thesis .
qed

lemma strip_length: "length (strip s) \<le> length s"
proof -
  have "length (strip s) = length (dropWhile isspace (rev (dropWhile isspace s)))"
    by (simp add: strip_def)
  also have "\<dots> \<le> length (rev (dropWhile isspace s))" by (rule length_dropWhile_le)
  also have "\<dots> \<le> length s" by (simp add: length_dropWhile_le)
  finally show ?thesis .
qed

lemma suffix_of_valid_sheet: "set (suffix_of i) \<inter> INVALID_SHEET_CHARS = {}"
  using suffix_of_digits [of i] by (auto simp: INVALID_SHEET_CHARS_def)

lemma sheet_candidate_length: "length (sheet_candidate name) \<le> 31"
proof -
  have "length (strip (slice_to (filter (\<lambda>ch. ch \<notin> INVALID_SHEET_CHARS) name) MAX_SHEET_LEN)) \<le> 31"
    using strip_length [of "slice_to (filter (\<lambda>ch. ch \<notin> INVALID_SHEET_CHARS) name) MAX_SHEET_LEN"]
    by (simp add: MAX_SHEET_LEN_def slice_to_def)
  then show ?thesis by (simp add: sheet_candidate_def Let_def lit_def)
qed

lemma sheet_candidate_valid: "set (sheet_candidate name) \<inter> INVALID_SHEET_CHARS = {}"
proof -
  define f where "f = filter (\<lambda>ch. ch \<notin> INVALID_SHEET_CHARS) name"
  have "set (strip (slice_to f MAX_SHEET_LEN)) \<subseteq> set (slice_to f MAX_SHEET_LEN)"
    by (rule strip_subset)
  also have "\<dots> \<subseteq> set f" by (rule set_slice_to)
  finally have "set (strip (slice_to f MAX_SHEET_LEN)) \<subseteq> set f" .
  moreover have "set f \<inter> INVALID_SHEET_CHARS = {}" unfolding f_def by auto
  ultimately have t: "set (strip (slice_to f MAX_SHEET_LEN)) \<inter> INVALID_SHEET_CHARS = {}"
    by blast
  have "set (lit ''sheet'') = {115, 104, 101, 116}"
    by (simp add: lit_def insert_commute)
  then have d: "set (lit ''sheet'') \<inter> INVALID_SHEET_CHARS = {}"
    by (simp add: INVALID_SHEET_CHARS_def)
  have "sheet_candidate name = lit ''sheet'' \<or> sheet_candidate name = strip (slice_to f MAX_SHEET_LEN)"
    by (simp add: sheet_candidate_def Let_def f_def)
  with t d show ?thesis by metis
qed

lemma next_sheet_name_valid:
  assumes "set base \<inter> INVALID_SHEET_CHARS = {}"
  shows "set (next_sheet_name base i) \<inter> INVALID_SHEET_CHARS = {}"
proof -
  have "set (dropWhile isspace (slice_to base (31 - int (length (suffix_of i))))) \<subseteq> set base"
    using set_slice_to [of base] by (blast dest: set_dropWhileD)
  then show ?thesis
    using assms suffix_of_valid_sheet [of i] unfolding next_sheet_name_form by auto
qed

lemma next_sheet_name_explicit:
  assumes "i < 10 ^ 30" "\<not> isspace (hd base)"
  shows "next_sheet_name base i = take (31 - length (suffix_of i)) base @ suffix_of i"
proof -
  from assms(1) have "length (suffix_of i) \<le> 31" by (rule length_suffix_of)
  then have "slice_to base (31 - int (length (suffix_of i))) = take (31 - length (suffix_of i)) base"
    by (simp add: slice_to_def nat_diff_distrib')
  then show ?thesis by (simp add: next_sheet_name_clean [OF assms(2)])
qed

lemma next_sheet_name_length:
  assumes "i < 10 ^ 30"
  shows "length (next_sheet_name base i) \<le> 31"
proof -
  from assms(1) have l: "length (suffix_of i) \<le> 31" by (rule length_suffix_of)
  then have "slice_to base (31 - int (length (suffix_of i))) = take (31 - length (suffix_of i)) base"
    by (simp add: slice_to_def nat_diff_distrib')
  moreover have "length (dropWhile isspace (take (31 - length (suffix_of i)) base))
                 \<le> 31 - length (suffix_of i)"
    using length_dropWhile_le [of isspace "take (31 - length (suffix_of i)) base"] by simp
  ultimately show ?thesis using l by (simp add: next_sheet_name_form)
qed

section \<open>What one call and two calls in sequence return\<close>

lemma invalid_sets_agree: "set invalid = INVALID_SHEET_CHARS"
  by (auto simp: invalid_def INVALID_SHEET_CHARS_def)

lemma index_bound: "card U < 10 ^ 30 - 1 \<Longrightarrow> k \<le> card U + 1 \<Longrightarrow> k < (10::nat) ^ 30"
  by simp

lemma sanitize_valid:
  assumes "finite U" "card U < 10 ^ 30 - 1" "sanitize L U = Some (r, U')"
  shows "set r \<inter> set invalid = {} \<and> length r \<le> 31"
proof -
  from sanitize_result [OF assms(1), of L] assms(3)
  have "r = candidate L \<or> (\<exists>k. k \<le> card U + 1 \<and> r = next_name (candidate L) k)"
    by auto
  then show ?thesis
  proof
    assume "r = candidate L"
    then show ?thesis by (simp add: candidate_valid candidate_length)
  next
    assume "\<exists>k. k \<le> card U + 1 \<and> r = next_name (candidate L) k"
    then obtain k where k: "k \<le> card U + 1" "r = next_name (candidate L) k" by blast
    from assms(2) k(1) have "k < 10 ^ 30" by (rule index_bound)
    with k(2) show ?thesis
      by (simp add: next_name_valid candidate_valid next_name_length candidate_length)
  qed
qed

lemma sanitize_fresh:
  assumes "finite U"
  shows "\<exists>r. sanitize L U = Some (r, insert r U) \<and> r \<notin> U \<and> r \<noteq> []"
  using sanitize_result [OF assms, of L] by blast

lemma sanitize_twice:
  assumes "finite U"
  shows "\<exists>r r'. sanitize L U = Some (r, insert r U) \<and>
           sanitize L' (insert r U) = Some (r', insert r' (insert r U)) \<and> r' \<noteq> r"
proof -
  from sanitize_fresh [OF assms, of L]
  obtain r where r: "sanitize L U = Some (r, insert r U)" by blast
  from assms have "finite (insert r U)" by simp
  from sanitize_fresh [OF this, of L']
  obtain r' where "sanitize L' (insert r U) = Some (r', insert r' (insert r U))" "r' \<notin> insert r U"
    by blast
  with r show ?thesis by auto
qed

lemma sanitize_sheet_name_valid:
  assumes "finite U" "card U < 10 ^ 30 - 1" "sanitize_sheet_name L U = Some (r, U')"
  shows "set r \<inter> INVALID_SHEET_CHARS = {} \<and> length r \<le> 31"
proof -
  from sanitize_sheet_name_result [OF assms(1), of L] assms(3)
  have "r = sheet_candidate L \<or> (\<exists>k. k \<le> card U + 1 \<and> r = next_sheet_name (sheet_candidate L) k)"
    by auto
  then show ?thesis
  proof
    assume "r = sheet_candidate L"
    then show ?thesis by (simp add: sheet_candidate_valid sheet_candidate_length)
  next
    assume "\<exists>k. k \<le> card U + 1 \<and> r = next_sheet_name (sheet_candidate L) k"
    then obtain k where k: "k \<le> card U + 1" "r = next_sheet_name (sheet_candidate L) k" by blast
    from assms(2) k(1) have "k < 10 ^ 30" by (rule index_bound)
    with k(2) show ?thesis
      by (simp add: next_sheet_name_valid sheet_candidate_valid next_sheet_name_length)
  qed
qed

lemma sanitize_sheet_name_fresh:
  assumes "finite U"
  shows "\<exists>r. sanitize_sheet_name L U = Some (r, insert r U) \<and> r \<notin> U"
  using sanitize_sheet_name_result [OF assms, of L] by blast

lemma sanitize_sheet_name_twice:
  assumes "finite U"
  shows "\<exists>r r'. sanitize_sheet_name L U = Some (r, insert r U) \<and>
           sanitize_sheet_name L' (insert r U) = Some (r', insert r' (insert r U)) \<and> r' \<noteq> r"
proof -
  from sanitize_sheet_name_fresh [OF assms, of L]
  obtain r where r: "sanitize_sheet_name L U = Some (r, insert r U)" by blast
  from assms have "finite (insert r U)" by simp
  from sanitize_sheet_name_fresh [OF this, of L']
  obtain r' where "sanitize_sheet_name L' (insert r U) = Some (r', insert r' (insert r U))"
      "r' \<notin> insert r U"
    by blast
  with r show ?thesis by auto
qed

section \<open>Evaluation on concrete labels, and the name after a collision\<close>

lemmas sanitize_eval =
  sanitize_def candidate_def sanitize_loop.simps replace_invalid_def invalid_def next_name_def
  slice_to_def suffix_of_def str_of_nat.simps lit_def Let_def

lemmas sanitize_sheet_name_eval =
  sanitize_sheet_name_def sheet_candidate_def sheet_name_loop.simps INVALID_SHEET_CHARS_def
  MAX_SHEET_LEN_def next_sheet_name_def strip_def isspace_def
  slice_to_def suffix_of_def str_of_nat.simps lit_def Let_def

lemma sanitize_data_1:
  "sanitize (lit ''data'') {lit ''data''} = Some (lit ''data_1'', {lit ''data_1'', lit ''data''})"
  by (simp add: sanitize_eval)

lemma sanitize_data_2:
  "sanitize (lit ''data'') {lit ''data'', lit ''data_1''}
   = Some (lit ''data_2'', {lit ''data_2'', lit ''data'', lit ''data_1''})"
  by (simp add: sanitize_eval)

lemma sanitize_sheet_name_data_1:
  "sanitize_sheet_name (lit ''data'') {lit ''data''}
   = Some (lit ''data_1'', {lit ''data_1'', lit ''data''})"
  by (simp add: sanitize_sheet_name_eval)

lemma sanitize_sheet_name_data_2:
  "sanitize_sheet_name (lit ''data'') {lit ''data'', lit ''data_1''}
   = Some (lit ''data_2'', {lit ''data_2'', lit ''data'', lit ''data_1''})"
  by (simp add: sanitize_sheet_name_eval)

lemma next_name_fits:
  "length base + length (suffix_of k) \<le> 31 \<Longrightarrow> next_name base k = base @ suffix_of k"
  by (simp add: next_name_def Let_def)

lemma next_sheet_name_fits:
  assumes "length base + length (suffix_of k) \<le> 31" "\<not> isspace (hd base)"
  shows "next_sheet_name base k = base @ suffix_of k"
proof -
  from assms(1) have "slice_to base (31 - int (length (suffix_of k))) = base"
    by (simp add: slice_to_def)
  with next_sheet_name_clean [OF assms(2), of k] show ?thesis by simp
qed

lemma sanitize_taken:
  assumes "finite U" "candidate L \<in> U \<or> candidate L = []"
  shows "\<exists>k\<ge>1. sanitize L U = Some (next_name (candidate L) k, insert (next_name (candidate L) k) U) \<and>
           next_name (candidate L) k \<notin> U \<and>
           (\<forall>j. 1 \<le> j \<and> j < k \<longrightarrow> next_name (candidate L) j \<in> U) \<and> k \<le> card U + 1"
  using sanitize_result [OF assms(1), of L] assms(2) by blast

lemma sanitize_sheet_name_taken:
  assumes "finite U" "sheet_candidate L \<in> U"
  shows "\<exists>k\<ge>1. sanitize_sheet_name L U
             = Some (next_sheet_name (sheet_candidate L) k,
                     insert (next_sheet_name (sheet_candidate L) k) U) \<and>
           next_sheet_name (sheet_candidate L) k \<notin> U \<and>
           (\<forall>j. 1 \<le> j \<and> j < k \<longrightarrow> next_sheet_name (sheet_candidate L) j \<in> U) \<and>
           k \<le> card U + 1"
  using sanitize_sheet_name_result [OF assms(1), of L] assms(2) by blast

section \<open>Labels that need no change\<close>

lemma replace_invalid_id: "set L \<inter> set invalid = {} \<Longrightarrow> replace_invalid L = L"
  unfolding replace_invalid_def by (induction L) auto

lemma candidate_id:
  assumes "set L \<inter> set invalid = {}" "length L \<le> 31"
  shows "candidate L = L"
  using assms by (simp add: candidate_def replace_invalid_id slice_to_def)

lemma sheet_candidate_id:
  assumes "set L \<inter> INVALID_SHEET_CHARS = {}" "length L \<le> 31" "L \<noteq> []"
    "\<not> isspace (hd L)" "\<not> isspace (last L)"
  shows "sheet_candidate L = L"
proof -
  from assms(1) have "filter (\<lambda>ch. ch \<notin> INVALID_SHEET_CHARS) L = L"
    by (induction L) auto
  moreover from assms(2) have "slice_to L MAX_SHEET_LEN = L"
    by (simp add: slice_to_def MAX_SHEET_LEN_def)
  moreover from assms(3-5) have "strip L = L" by (rule strip_id)
  ultimately show ?thesis using assms(3) by (simp add: sheet_candidate_def Let_def)
qed

lemma sanitize_free:
  assumes "candidate L \<notin> U" "candidate L \<noteq> []"
  shows "sanitize L U = Some (candidate L, insert (candidate L) U)"
proof -
  from assms have "sanitize_loop U (candidate L) (candidate L) 1 = Some (candidate L)"
    by (subst sanitize_loop.simps) simp
  then show ?thesis by (simp add: sanitize_def Let_def)
qed

lemma sanitize_sheet_name_free:
  assumes "sheet_candidate L \<notin> U"
  shows "sanitize_sheet_name L U = Some (sheet_candidate L, insert (sheet_candidate L) U)"
proof -
  from assms have "sheet_name_loop U (sheet_candidate L) (sheet_candidate L) 1
                   = Some (sheet_candidate L)"
    by (subst sheet_name_loop.simps) simp
  then show ?thesis by (simp add: sanitize_sheet_name_def Let_def)
qed

section \<open>Truncation and the suffix\<close>

lemma candidate_take: "candidate L = take 31 (replace_invalid L)"
  by (simp add: candidate_def slice_to_def)

lemma sanitize_suffixed:
  assumes "finite U" "card U < 10 ^ 30 - 1" "candidate L \<in> U \<or> candidate L = []"
  shows "\<exists>k\<ge>1. \<exists>r. sanitize L U = Some (r, insert r U) \<and>
           r = (if length (candidate L) + length (suffix_of k) > 31
                then take (31 - length (suffix_of k)) (candidate L)
                else candidate L) @ suffix_of k \<and>
           length r \<le> 31"
proof -
  from sanitize_taken [OF assms(1,3)]
  obtain k where k: "1 \<le> k"
      "sanitize L U = Some (next_name (candidate L) k, insert (next_name (candidate L) k) U)"
      "k \<le> card U + 1"
    by blast
  from assms(2) k(3) have b: "k < 10 ^ 30" by (rule index_bound)
  have "length (next_name (candidate L) k) \<le> 31"
    using b candidate_length by (rule next_name_length)
  with k(1,2) next_name_explicit [OF b, of "candidate L"] show ?thesis by metis
qed

lemma sanitize_sheet_name_suffixed:
  assumes "finite U" "card U < 10 ^ 30 - 1" "sheet_candidate L \<in> U"
  shows "\<exists>k\<ge>1. \<exists>r. sanitize_sheet_name L U = Some (r, insert r U) \<and>
           r = take (31 - length (suffix_of k)) (sheet_candidate L) @ suffix_of k \<and>
           length r \<le> 31"
proof -
  from sanitize_sheet_name_taken [OF assms(1,3)]
  obtain k where k: "1 \<le> k"
      "sanitize_sheet_name L U = Some (next_sheet_name (sheet_candidate L) k,
         insert (next_sheet_name (sheet_candidate L) k) U)"
      "k \<le> card U + 1"
    by blast
  from assms(2) k(3) have b: "k < 10 ^ 30" by (rule index_bound)
  have "length (next_sheet_name (sheet_candidate L) k) \<le> 31"
    using b by (rule next_sheet_name_length)
  moreover have "next_sheet_name (sheet_candidate L) k
                 = take (31 - length (suffix_of k)) (sheet_candidate L) @ suffix_of k"
    using b sheet_candidate_ends by (intro next_sheet_name_explicit) auto
  ultimately show ?thesis using k(1,2) by metis
qed

section \<open>Labels of which nothing is left\<close>













lemma sanitize_Nil_1: "sanitize [] {} = Some (lit ''_1'', {lit ''_1''})"
  by (simp add: sanitize_eval)


lemma sanitize_colons: "sanitize (lit '':::'') {} = Some (lit ''___'', {lit ''___''})"
  by (simp add: sanitize_eval)

lemma sanitize_truncated_example:
  "sanitize (lit ''acme-prod-europe-west1-0000001::compute_instances'') {} = Some (lit ''acme-prod-europe-west1-0000001_'', {lit ''acme-prod-europe-west1-0000001_''}) \<and>
   sanitize (lit ''acme-prod-europe-west1-0000001::compute_disks'') {lit ''acme-prod-europe-west1-0000001_''} = Some (lit ''acme-prod-europe-west1-000000_1'', {lit ''acme-prod-europe-west1-000000_1'', lit ''acme-prod-europe-west1-0000001_''})"
  by (simp add: sanitize_eval)



lemma sanitize_double_colon: "sanitize (lit ''::'') {} = Some (lit ''__'', {lit ''__''})"
  by (simp add: sanitize_eval)

section \<open>Facts about the collectors\<close>









lemma gather_asset_resources_swallows:
  assumes "import_ok api" and "AssetServiceClient api = None"
    and "search_all_resources api (lit ''projects/'' @ project) = (items, Some (Exception msg))"
    and "snd (converted (to_dict api) items) = None"
  shows "gather_asset_resources loads sh api project =
           (Inr (JList (fst (converted (to_dict api) items))),
            [Search (lit ''projects/'' @ project),
             PrintErr (lit ''Cloud Asset client error: '' @ msg)])"
  using assms by (simp add: gather_asset_resources_def Let_def split_beta)


section \<open>Facts about the exporters\<close>

lemma sanitize_sheet_name_assets:
  "sanitize_sheet_name (lit ''assets'') {} = Some (lit ''assets'', {lit ''assets''})"
  by (simp add: sanitize_sheet_name_eval)

lemma first_seen_set: "set (first_seen seen ks) = set seen \<union> set ks"
  by (induction ks arbitrary: seen) auto

lemma first_seen_distinct: "distinct seen \<Longrightarrow> distinct (first_seen seen ks)"
  by (induction ks arbitrary: seen) auto

lemma DataFrame_columns: "set (columns (DataFrame data)) = (\<Union>r\<in>set data. fst ` set r)"
  by (auto simp: DataFrame_def first_seen_set)

lemma DataFrame_distinct: "distinct (columns (DataFrame data))"
  by (simp add: DataFrame_def first_seen_distinct)

lemma flatten_row_keys: "map fst (flatten_row dumps r) = map fst r"
  by (induction r) (auto simp: flatten_row_def)

lemma flatten_row_length: "length (flatten_row dumps r) = length r"
  by (simp add: flatten_row_def)

lemma flatten_row_nth:
  "j < length r \<Longrightarrow> flatten_row dumps r ! j = (fst (r ! j), flatten_value dumps (snd (r ! j)))"
  by (simp add: flatten_row_def split_beta)

lemma assets_frame_columns:
  "set (columns (assets_frame dumps resources)) = (\<Union>r\<in>set resources. fst ` set r)"
proof (cases "resources = []")
  case True
  then show ?thesis by (simp add: assets_frame_def DataFrame_columns)
next
  case False
  have "(\<Union>r\<in>set (map (flatten_row dumps) resources). fst ` set r)
        = (\<Union>r\<in>set resources. set (map fst (flatten_row dumps r)))"
    by auto
  also have "\<dots> = (\<Union>r\<in>set resources. fst ` set r)"
    by (simp add: flatten_row_keys)
  finally show ?thesis using False by (simp add: assets_frame_def DataFrame_columns)
qed

lemma assets_frame_distinct: "distinct (columns (assets_frame dumps resources))"
  by (simp add: assets_frame_def DataFrame_distinct)

lemma assets_frame_cells:
  "resources \<noteq> [] \<Longrightarrow> cells (assets_frame dumps resources) = map (flatten_row dumps) resources"
  by (simp add: assets_frame_def DataFrame_def)

lemma assets_frame_empty: "assets_frame dumps [] = \<lparr>columns = [], cells = [[]]\<rparr>"
  by (simp add: assets_frame_def DataFrame_def)

lemma resources_to_excel_pkg_written:
  assumes "to_excel pd (lit ''assets'') (assets_frame dumps resources) = None"
    and "close_writer pd out_path [(lit ''assets'', assets_frame dumps resources)] = None"
  shows "resources_to_excel_pkg dumps pd resources out_path =
           Some (Inr (),
                 [Log (lit ''Writing inventory to '' @ out_path),
                  Save out_path [(lit ''assets'', assets_frame dumps resources)]])"
  using assms by (simp add: resources_to_excel_pkg_def sanitize_sheet_name_assets Let_def)

lemma resources_to_excel_Nil:
  "resources_to_excel pd [] output_file =
     Some (case close_writer pd output_file [] of
             Some e \<Rightarrow> (Inl e, [])
           | None \<Rightarrow> (Inr (), [Save output_file []]))"
  by (simp add: resources_to_excel_def split: option.splits)

lemmas export_eval =
  resources_to_excel_def is_record_list_def pandas_openpyxl_def mappings_in_def
  normalise_json_ordered_def is_dict_def DataFrame_def sanitize_eval

section \<open>Reading back what \<open>json.dumps\<close> writes\<close>

lemma hex_digit_hex_char: "d < 16 \<Longrightarrow> hex_digit (hex_char d) = Some d"
  by (auto simp add: hex_digit_def hex_char_def)

lemma decode_uXXXX_control:
  assumes "c < 32"
  shows "decode_uXXXX [48, 48, hex_char (c div 16), hex_char (c mod 16)] = Some c"
proof -
  have a: "hex_digit (hex_char (c div 16)) = Some (c div 16)"
    using assms by (intro hex_digit_hex_char) simp
  have b: "hex_digit (hex_char (c mod 16)) = Some (c mod 16)"
    by (intro hex_digit_hex_char) simp
  have z: "hex_digit 48 = Some 0" by (simp add: hex_digit_def)
  show ?thesis by (simp add: decode_uXXXX_def a b z)
qed

lemma scanstring_quote: "scanstring (34 # t) = Some ([], t)"
  by (simp add: scanstring.simps)

lemma scanstring_escape_char: "scanstring (escape_char c @ t) = prepend c (scanstring t)"
proof -
  consider "c = 34" | "c = 92" | "c = 10" | "c = 13" | "c = 9" | "c = 8" | "c = 12"
    | "c < 32" "c \<notin> {34, 92, 10, 13, 9, 8, 12}" | "32 \<le> c" "c \<noteq> 34" "c \<noteq> 92"
    by fastforce
  then show ?thesis
  proof cases
    case 8
    then have e: "escape_char c = [92, 117, 48, 48, hex_char (c div 16), hex_char (c mod 16)]"
      by (simp add: escape_char_def)
    show ?thesis
      using 8(1) by (simp add: e scanstring.simps(2) [of 92] decode_uXXXX_control)
  next
    case 9
    then have e: "escape_char c = [c]" by (simp add: escape_char_def)
    show ?thesis using 9 by (simp add: e scanstring.simps(2) [of c])
  qed (simp_all add: escape_char_def scanstring.simps(2) [of 92] unescape_def)
qed

lemma scanstring_encode:
  "scanstring (concat (map escape_char s) @ 34 # rest) = Some (s, rest)"
  by (induction s) (simp_all add: scanstring_quote scanstring_escape_char prepend_def)

lemma str_of_nat_is_digit: "c \<in> set (str_of_nat n) \<Longrightarrow> is_digit c"
  using str_of_nat_digits [of n] by (auto simp add: is_digit_def)

lemma str_of_nat_0: "str_of_nat 0 = [48]"
  by (subst str_of_nat.simps) simp

lemma hd_str_of_nat: "0 < n \<Longrightarrow> 49 \<le> hd (str_of_nat n) \<and> hd (str_of_nat n) \<le> 57"
proof (induction n rule: str_of_nat.induct)
  case (1 n)
  show ?case
  proof (cases "n < 10")
    case True
    then have "str_of_nat n = [48 + n]" by (subst str_of_nat.simps) simp
    with True "1.prems" show ?thesis by simp
  next
    case False
    then have "str_of_nat n = str_of_nat (n div 10) @ [48 + n mod 10]"
      by (subst str_of_nat.simps) simp
    then have "hd (str_of_nat n) = hd (str_of_nat (n div 10))"
      by (simp add: str_of_nat_not_Nil)
    moreover from False have "0 < n div 10" by simp
    ultimately show ?thesis using "1.IH" False by simp
  qed
qed

lemma hd_str_of_nat_digit: "48 \<le> hd (str_of_nat n) \<and> hd (str_of_nat n) \<le> 57"
proof (cases "n = 0")
  case True
  then show ?thesis by (simp add: str_of_nat_0)
next
  case False
  then show ?thesis using hd_str_of_nat [of n] by simp
qed

lemma nat_of_digits_snoc: "nat_of_digits (ds @ [d]) = 10 * nat_of_digits ds + (d - 48)"
  by (simp add: nat_of_digits_def)

lemma nat_of_digits_str_of_nat: "nat_of_digits (str_of_nat n) = n"
proof (induction n rule: str_of_nat.induct)
  case (1 n)
  show ?case
  proof (cases "n < 10")
    case True
    then have "str_of_nat n = [48 + n]" by (subst str_of_nat.simps) simp
    then show ?thesis by (simp add: nat_of_digits_def)
  next
    case False
    then have "str_of_nat n = str_of_nat (n div 10) @ [48 + n mod 10]"
      by (subst str_of_nat.simps) simp
    then have "nat_of_digits (str_of_nat n) = 10 * nat_of_digits (str_of_nat (n div 10)) + n mod 10"
      by (simp add: nat_of_digits_snoc)
    with "1.IH" False show ?thesis by simp
  qed
qed

lemma takeWhile_digits:
  assumes "\<forall>c\<in>set ds. is_digit c" and "rest = [] \<or> \<not> is_digit (hd rest)"
  shows "takeWhile is_digit (ds @ rest) = ds"
proof -
  have "takeWhile is_digit rest = []" using assms(2) by (cases rest) auto
  with assms(1) show ?thesis by (simp add: takeWhile_append2)
qed

lemma delimited_not_digit: "delimited rest \<Longrightarrow> rest = [] \<or> \<not> is_digit (hd rest)"
  by (auto simp add: delimited_def is_digit_def)

lemma match_integer_str_of_nat:
  assumes "rest = [] \<or> \<not> is_digit (hd rest)"
  shows "match_integer (str_of_nat n @ rest) = str_of_nat n"
proof (cases "n = 0")
  case True
  then show ?thesis by (simp add: match_integer_def str_of_nat_0 Let_def)
next
  case False
  then have h: "49 \<le> hd (str_of_nat n) \<and> hd (str_of_nat n) \<le> 57"
    using hd_str_of_nat [of n] by simp
  have t: "takeWhile is_digit (str_of_nat n @ rest) = str_of_nat n"
    using assms by (intro takeWhile_digits) (auto simp add: str_of_nat_is_digit)
  show ?thesis
    using h by (simp add: match_integer_def Let_def str_of_nat_not_Nil t)
qed

lemma match_integer_minus:
  assumes "rest = [] \<or> \<not> is_digit (hd rest)" and "0 < n"
  shows "match_integer (45 # str_of_nat n @ rest) = 45 # str_of_nat n"
proof -
  have h: "49 \<le> hd (str_of_nat n) \<and> hd (str_of_nat n) \<le> 57"
    using hd_str_of_nat [of n] assms(2) by simp
  have t: "takeWhile is_digit (str_of_nat n @ rest) = str_of_nat n"
    using assms(1) by (intro takeWhile_digits) (auto simp add: str_of_nat_is_digit)
  show ?thesis
    using h by (simp add: match_integer_def Let_def str_of_nat_not_Nil t)
qed

lemma match_integer_int_repr:
  assumes "rest = [] \<or> \<not> is_digit (hd rest)"
  shows "match_integer (int_repr i @ rest) = int_repr i"
  using assms by (simp add: int_repr_def match_integer_str_of_nat match_integer_minus)

lemma int_of_token_int_repr: "int_of_token (int_repr i) = i"
proof (cases "i < 0")
  case True
  then show ?thesis by (simp add: int_repr_def int_of_token_def nat_of_digits_str_of_nat)
next
  case False
  obtain c ds where s: "str_of_nat (nat i) = c # ds"
    using str_of_nat_not_Nil [of "nat i"] by (cases "str_of_nat (nat i)") auto
  have "c \<noteq> 45" using hd_str_of_nat_digit [of "nat i"] s by auto
  moreover have "nat_of_digits (c # ds) = nat i"
    using nat_of_digits_str_of_nat [of "nat i"] s by simp
  ultimately show ?thesis using False by (simp add: int_repr_def int_of_token_def s)
qed

lemma int_repr_not_Nil: "int_repr i \<noteq> []"
  by (simp add: int_repr_def str_of_nat_not_Nil)

lemma hd_int_repr: "hd (int_repr i) = 45 \<or> (48 \<le> hd (int_repr i) \<and> hd (int_repr i) \<le> 57)"
  using hd_str_of_nat_digit [of "nat i"] by (simp add: int_repr_def)

lemma match_frac_delimited: "delimited rest \<Longrightarrow> match_frac rest = []"
  by (auto simp add: match_frac_def delimited_def)

lemma match_exp_delimited: "delimited rest \<Longrightarrow> match_exp rest = []"
  by (auto simp add: match_exp_def delimited_def)

lemma match_number_int_repr:
  assumes "delimited rest"
  shows "match_number float_of (int_repr i @ rest) = Some (JNum (PyInt i), rest)"
proof -
  have m: "match_integer (int_repr i @ rest) = int_repr i"
    using assms by (intro match_integer_int_repr delimited_not_digit)
  show ?thesis
    by (simp add: match_number_def m Let_def int_repr_not_Nil match_frac_delimited [OF assms]
        match_exp_delimited [OF assms] int_of_token_int_repr)
qed

lemma match_number_start:
  assumes "\<not> value_start c"
  shows "match_number float_of (c # cs) = None"
proof -
  have "match_integer (c # cs) = []"
    using assms by (auto simp add: match_integer_def value_start_def is_digit_def Let_def)
  then show ?thesis
    using assms by (auto simp add: match_number_def value_start_def lit_def Let_def)
qed

lemma scan_once_start:
  assumes "scan_once float_of n s = Some r"
  shows "s \<noteq> [] \<and> value_start (hd s)"
proof (cases n)
  case 0
  with assms show ?thesis by simp
next
  case (Suc m)
  show ?thesis
  proof (cases s)
    case Nil
    with assms Suc show ?thesis by simp
  next
    case (Cons c cs)
    show ?thesis
    proof (rule ccontr)
      assume "\<not> (s \<noteq> [] \<and> value_start (hd s))"
      with Cons have nv: "\<not> value_start c" by simp
      then have "c \<noteq> 34" "c \<noteq> 123" "c \<noteq> 91" "c \<noteq> 110" "c \<noteq> 116" "c \<noteq> 102"
        by (auto simp add: value_start_def)
      then have "scan_once float_of (Suc m) (c # cs) = match_number float_of (c # cs)"
        by (simp add: lit_def)
      with assms Suc Cons match_number_start [OF nv] show False by simp
    qed
  qed
qed

lemma value_start_not_ws: "value_start c \<Longrightarrow> \<not> is_ws c"
  by (auto simp add: value_start_def is_ws_def is_digit_def)

lemma skip_ws_start: "s \<noteq> [] \<Longrightarrow> \<not> is_ws (hd s) \<Longrightarrow> skip_ws s = s"
  by (cases s) (simp_all add: skip_ws_def)

lemma skip_ws_space: "skip_ws (32 # s) = skip_ws s"
  by (simp add: skip_ws_def is_ws_def)

lemma skip_ws_Cons: "\<not> is_ws c \<Longrightarrow> skip_ws (c # t) = c # t"
  by (simp add: skip_ws_def)

lemma is_ws_punct: "\<not> is_ws 44" "\<not> is_ws 93" "\<not> is_ws 125" "\<not> is_ws 58" "\<not> is_ws 34"
  by (simp_all add: is_ws_def)

lemmas skip_ws_punct = is_ws_punct [THEN skip_ws_Cons]

lemma join_Cons: "join sep (x # xs) = x @ (if xs = [] then [] else sep @ join sep xs)"
  by (cases xs) simp_all

lemma dict_set_fresh: "k \<notin> fst ` set d \<Longrightarrow> dict_set d k v = d @ [(k, v)]"
  by (simp add: dict_set_def)

lemma foldl_dict_set:
  "distinct (map fst (acc @ kvs)) \<Longrightarrow> foldl (\<lambda>d (k, v). dict_set d k v) acc kvs = acc @ kvs"
proof (induction kvs arbitrary: acc)
  case Nil
  show ?case by simp
next
  case (Cons kv kvs)
  obtain k v where kv: "kv = (k, v)" by (cases kv)
  from Cons.prems have fresh: "k \<notin> fst ` set acc" by (auto simp add: kv)
  from Cons.prems have "distinct (map fst ((acc @ [(k, v)]) @ kvs))" by (simp add: kv)
  then have "foldl (\<lambda>d (k, v). dict_set d k v) (acc @ [(k, v)]) kvs = (acc @ [(k, v)]) @ kvs"
    by (rule Cons.IH)
  then show ?case by (simp add: kv dict_set_fresh [OF fresh])
qed

lemma dict_of_distinct: "distinct (map fst kvs) \<Longrightarrow> dict_of kvs = kvs"
  using foldl_dict_set [of "[]" kvs] by (simp add: dict_of_def)

lemma JSONArray_join:
  assumes "\<And>x fuel rest. x \<in> set xs \<Longrightarrow> delimited rest \<Longrightarrow> length (D x) \<le> fuel \<Longrightarrow>
             scan_once float_of fuel (D x @ rest) = Some (x, rest)"
    and "xs \<noteq> []"
    and "length (join [44, 32] (map D xs)) < fuel"
  shows "JSONArray float_of fuel (join [44, 32] (map D xs) @ 93 # rest) = Some (xs, rest)"
  using assms
proof (induction xs arbitrary: fuel)
  case Nil
  then show ?case by simp
next
  case (Cons x xs)
  note el = Cons.prems(1) and len = Cons.prems(3) and IH = Cons.IH
  from len obtain n where fuel: "fuel = Suc n" by (cases fuel) auto
  have x: "delimited t \<Longrightarrow> length (D x) \<le> m \<Longrightarrow> scan_once float_of m (D x @ t) = Some (x, t)" for m t
    by (rule el) simp_all
  show ?case
  proof (cases "xs = []")
    case True
    have d: "delimited (93 # rest)" by (simp add: delimited_def)
    have l: "length (D x) \<le> n" using len fuel True by simp
    have "scan_once float_of n (D x @ 93 # rest) = Some (x, 93 # rest)" by (rule x [OF d l])
    then show ?thesis by (simp add: fuel True skip_ws_punct)
  next
    case False
    define tail where "tail = join [44, 32] (map D xs) @ 93 # rest"
    have j: "join [44, 32] (map D (x # xs)) @ 93 # rest = D x @ 44 # 32 # tail"
      using False by (simp add: join_Cons tail_def)
    have d: "delimited (44 # 32 # tail)" by (simp add: delimited_def)
    have l: "length (D x) \<le> n" using len fuel by (simp add: join_Cons)
    have s1: "scan_once float_of n (D x @ 44 # 32 # tail) = Some (x, 44 # 32 # tail)"
      by (rule x [OF d l])
    from False obtain y ys where xs: "xs = y # ys" by (cases xs) auto
    have "scan_once float_of (length (D y)) (D y @ []) = Some (y, [])"
      by (rule el) (simp_all add: xs delimited_def)
    then have "D y \<noteq> [] \<and> value_start (hd (D y))"
      using scan_once_start [of float_of "length (D y)" "D y"] by simp
    then have "tail \<noteq> [] \<and> \<not> is_ws (hd tail)"
      by (simp add: tail_def xs join_Cons value_start_not_ws)
    then have sk: "skip_ws (32 # tail) = tail"
      by (simp add: skip_ws_space skip_ws_start)
    have "JSONArray float_of n (join [44, 32] (map D xs) @ 93 # rest) = Some (xs, rest)"
    proof (rule IH)
      show "scan_once float_of fuel (D x @ rest) = Some (x, rest)"
        if "x \<in> set xs" "delimited rest" "length (D x) \<le> fuel" for x fuel rest
        using that by (intro el) simp_all
      show "xs \<noteq> []" by (rule False)
      show "length (join [44, 32] (map D xs)) < n"
        using len fuel False by (simp add: join_Cons)
    qed
    then have ih: "JSONArray float_of n tail = Some (xs, rest)" by (simp add: tail_def)
    have "JSONArray float_of (Suc n) (D x @ 44 # 32 # tail) = Some (x # xs, rest)"
      by (simp add: s1 sk ih skip_ws_punct)
    then show ?thesis by (simp only: j fuel)
  qed
qed

lemma member_text_eq:
  "member_text D (k, v) = 34 # concat (map escape_char k) @ 34 # 58 # 32 # D v"
  by (simp add: member_text_def encode_basestring_def)

lemma JSONObject_join:
  assumes "\<And>v fuel rest. v \<in> snd ` set kvs \<Longrightarrow> delimited rest \<Longrightarrow> length (D v) \<le> fuel \<Longrightarrow>
             scan_once float_of fuel (D v @ rest) = Some (v, rest)"
    and "kvs \<noteq> []"
    and "length (join [44, 32] (map (member_text D) kvs)) < fuel"
  shows "JSONObject float_of fuel (tl (join [44, 32] (map (member_text D) kvs) @ 125 # rest)) =
         Some (kvs, rest)"
  using assms
proof (induction kvs arbitrary: fuel)
  case Nil
  then show ?case by simp
next
  case (Cons kv kvs)
  note el = Cons.prems(1) and len = Cons.prems(3) and IH = Cons.IH
  obtain k v where kv: "kv = (k, v)" by (cases kv)
  from len obtain n where fuel: "fuel = Suc n" by (cases fuel) auto
  have v: "delimited t \<Longrightarrow> length (D v) \<le> m \<Longrightarrow> scan_once float_of m (D v @ t) = Some (v, t)" for m t
    by (rule el) (simp_all add: kv)
  have "scan_once float_of (length (D v)) (D v @ []) = Some (v, [])"
    by (rule v) (simp_all add: delimited_def)
  then have st: "D v \<noteq> [] \<and> value_start (hd (D v))"
    using scan_once_start [of float_of "length (D v)" "D v"] by simp
  have sk: "skip_ws (32 # D v @ t) = D v @ t" for t
    using st by (simp add: skip_ws_space skip_ws_start value_start_not_ws)
  show ?case
  proof (cases "kvs = []")
    case True
    have d: "delimited (125 # rest)" by (simp add: delimited_def)
    have l: "length (D v) \<le> n" using len fuel True by (simp add: kv member_text_eq)
    have s1: "scan_once float_of n (D v @ 125 # rest) = Some (v, 125 # rest)" by (rule v [OF d l])
    have t: "tl (join [44, 32] (map (member_text D) (kv # kvs)) @ 125 # rest) =
             concat (map escape_char k) @ 34 # 58 # 32 # D v @ 125 # rest"
      by (simp add: True kv member_text_eq)
    have "JSONObject float_of (Suc n) (concat (map escape_char k) @ 34 # 58 # 32 # D v @ 125 # rest) =
          Some (kv # kvs, rest)"
      by (simp add: scanstring_encode skip_ws_punct sk s1 True kv)
    then show ?thesis unfolding t fuel .
  next
    case False
    define tail where "tail = join [44, 32] (map (member_text D) kvs) @ 125 # rest"
    have d: "delimited (44 # 32 # tail)" by (simp add: delimited_def)
    have l: "length (D v) \<le> n" using len fuel by (simp add: kv member_text_eq join_Cons)
    have s1: "scan_once float_of n (D v @ 44 # 32 # tail) = Some (v, 44 # 32 # tail)"
      by (rule v [OF d l])
    have t: "tl (join [44, 32] (map (member_text D) (kv # kvs)) @ 125 # rest) =
             concat (map escape_char k) @ 34 # 58 # 32 # D v @ 44 # 32 # tail"
      using False by (simp add: kv member_text_eq join_Cons tail_def)
    from False obtain k2 v2 more where kvs: "kvs = (k2, v2) # more" by (cases kvs) auto
    have hd_tail: "tail \<noteq> [] \<and> hd tail = 34"
      by (simp add: tail_def kvs join_Cons member_text_eq)
    then have sk2: "skip_ws (32 # tail) = tail"
      by (simp add: skip_ws_space skip_ws_start is_ws_def)
    have "JSONObject float_of n (tl (join [44, 32] (map (member_text D) kvs) @ 125 # rest)) =
          Some (kvs, rest)"
    proof (rule IH)
      show "scan_once float_of fuel (D v @ rest) = Some (v, rest)"
        if "v \<in> snd ` set kvs" "delimited rest" "length (D v) \<le> fuel" for v fuel rest
        using that by (intro el) auto
      show "kvs \<noteq> []" by (rule False)
      show "length (join [44, 32] (map (member_text D) kvs)) < n"
        using len fuel False by (simp add: join_Cons)
    qed
    then have ih: "JSONObject float_of n (tl tail) = Some (kvs, rest)" by (simp add: tail_def)
    have "JSONObject float_of (Suc n)
            (concat (map escape_char k) @ 34 # 58 # 32 # D v @ 44 # 32 # tail) =
          Some (kv # kvs, rest)"
      using hd_tail by (simp add: scanstring_encode skip_ws_punct sk s1 sk2 ih kv)
    then show ?thesis unfolding t fuel .
  qed
qed

lemma takeWhile_digits_append:
  assumes "rest = [] \<or> \<not> is_digit (hd rest)"
  shows "takeWhile is_digit (xs @ rest) = takeWhile is_digit xs"
proof (cases "\<forall>x\<in>set xs. is_digit x")
  case True
  have r: "takeWhile is_digit rest = []" using assms by (cases rest) auto
  have "takeWhile is_digit (xs @ rest) = xs @ takeWhile is_digit rest"
    using True by (simp add: takeWhile_append2)
  also have "\<dots> = xs" by (simp add: r)
  also have "xs = takeWhile is_digit xs"
    using True by (induction xs) auto
  finally show ?thesis .
next
  case False
  then obtain x where "x \<in> set xs" "\<not> is_digit x" by auto
  then show ?thesis by (rule takeWhile_append1)
qed

lemma delimited_hd:
  assumes "delimited rest"
  shows "rest = [] \<or> (hd rest \<noteq> 45 \<and> hd rest \<noteq> 46 \<and> hd rest \<noteq> 101 \<and> hd rest \<noteq> 69 \<and>
           hd rest \<noteq> 43 \<and> \<not> is_digit (hd rest))"
  using assms by (auto simp add: delimited_def is_digit_def)

lemma match_integer_append:
  assumes "delimited rest"
  shows "match_integer (t @ rest) = match_integer t"
proof -
  note nd = delimited_not_digit [OF assms]
  note tw = takeWhile_digits_append [OF nd]
  note h = delimited_hd [OF assms]
  show ?thesis
  proof (cases t)
    case Nil
    with h show ?thesis by (cases rest) (auto simp add: match_integer_def is_digit_def)
  next
    case (Cons c cs)
    show ?thesis
    proof (cases "c = 45")
      case True
      show ?thesis
      proof (cases cs)
        case Nil
        with h True Cons show ?thesis
          by (cases rest) (auto simp add: match_integer_def is_digit_def)
      next
        case (Cons d ds)
        with True \<open>t = c # cs\<close> show ?thesis
          by (simp add: match_integer_def Let_def tw)
      qed
    next
      case False
      with Cons show ?thesis
        by (simp add: match_integer_def Let_def tw)
    qed
  qed
qed

lemma match_frac_append:
  assumes "delimited rest"
  shows "match_frac (u @ rest) = match_frac u"
proof -
  note nd = delimited_not_digit [OF assms]
  note tw = takeWhile_digits_append [OF nd]
  note h = delimited_hd [OF assms]
  show ?thesis
  proof (cases u)
    case Nil
    then show ?thesis using match_frac_delimited [OF assms] by (simp add: match_frac_def)
  next
    case (Cons c cs)
    show ?thesis
    proof (cases cs)
      case Nil
      with Cons nd show ?thesis by (auto simp add: match_frac_def)
    next
      case (Cons d ds)
      with \<open>u = c # cs\<close> show ?thesis
        by (simp add: match_frac_def tw)
    qed
  qed
qed

lemma match_exp_append:
  assumes "delimited rest"
  shows "match_exp (u @ rest) = match_exp u"
proof -
  note nd = delimited_not_digit [OF assms]
  note tw = takeWhile_digits_append [OF nd]
  note h = delimited_hd [OF assms]
  show ?thesis
  proof (cases u)
    case Nil
    then show ?thesis using match_exp_delimited [OF assms] by (simp add: match_exp_def)
  next
    case (Cons c cs)
    show ?thesis
    proof (cases cs)
      case Nil
      have "takeWhile is_digit rest = []" using nd by (cases rest) auto
      with Nil \<open>u = c # cs\<close> h show ?thesis
        by (cases rest) (auto simp add: match_exp_def Let_def)
    next
      case (Cons d ds)
      with \<open>u = c # cs\<close> show ?thesis
        by (simp add: match_exp_def Let_def tw)
    qed
  qed
qed

lemma match_integer_start:
  assumes "match_integer s \<noteq> []"
  shows "s \<noteq> [] \<and> (hd s = 45 \<or> is_digit (hd s))"
proof (cases s)
  case Nil
  with assms show ?thesis by (simp add: match_integer_def)
next
  case (Cons c cs)
  with assms show ?thesis
    by (auto simp add: match_integer_def Let_def is_digit_def split: if_splits)
qed

lemma match_number_constants:
  "match_number float_of (lit ''NaN'' @ rest) = Some (JNum (PyFloat (float_of (lit ''NaN''))), rest)"
  "match_number float_of (lit ''Infinity'' @ rest) =
     Some (JNum (PyFloat (float_of (lit ''Infinity''))), rest)"
  "match_number float_of (lit ''-Infinity'' @ rest) =
     Some (JNum (PyFloat (float_of (lit ''-Infinity''))), rest)"
  by (simp_all add: match_number_def match_integer_def lit_def Let_def)

lemma match_number_float_text:
  assumes "is_float_text t" and "delimited rest"
  shows "match_number float_of (t @ rest) = Some (JNum (PyFloat (float_of t)), rest)"
proof (cases "t = lit ''NaN'' \<or> t = lit ''Infinity'' \<or> t = lit ''-Infinity''")
  case True
  then show ?thesis using match_number_constants [of float_of rest] by auto
next
  case False
  define i where "i = match_integer t"
  define f where "f = match_frac (drop (length i) t)"
  define e where "e = match_exp (drop (length i + length f) t)"
  from assms(1) False have "i \<noteq> [] \<and> (f \<noteq> [] \<or> e \<noteq> []) \<and> t = i @ f @ e"
    unfolding is_float_text_def Let_def i_def f_def e_def by blast
  then have i: "i \<noteq> []" and fe: "f \<noteq> [] \<or> e \<noteq> []" and t: "t = i @ f @ e" by blast+
  have mi: "match_integer (t @ rest) = i"
    using match_integer_append [OF assms(2), of t] by (simp add: i_def)
  have d1: "drop (length i) t = f @ e" by (subst t) simp
  have d2: "drop (length i + length f) t = e" by (subst t) simp
  have s2: "drop (length i) (t @ rest) = f @ e @ rest" by (subst t) simp
  have "match_frac ((f @ e) @ rest) = match_frac (f @ e)"
    by (rule match_frac_append [OF assms(2)])
  also have "\<dots> = f" unfolding f_def [symmetric, unfolded d1] ..
  finally have mf: "match_frac (f @ e @ rest) = f" by simp
  have "match_exp (e @ rest) = match_exp e"
    by (rule match_exp_append [OF assms(2)])
  also have "\<dots> = e" unfolding e_def [symmetric, unfolded d2] ..
  finally have me: "match_exp (e @ rest) = e" .
  have "match_number float_of (t @ rest) = Some (JNum (PyFloat (float_of (i @ f @ e))), rest)"
    unfolding match_number_def mi s2 Let_def using i fe by (simp add: mf me)
  then show ?thesis unfolding t [symmetric] .
qed

lemma float_text_start:
  assumes "is_float_text t"
  shows "t \<noteq> [] \<and> (hd t = 45 \<or> is_digit (hd t) \<or> hd t = 78 \<or> hd t = 73)"
proof -
  consider "t = lit ''NaN''" | "t = lit ''Infinity''" | "t = lit ''-Infinity''"
    | "match_integer t \<noteq> []"
    using assms by (auto simp add: is_float_text_def Let_def)
  then show ?thesis
  proof cases
    case 4
    then show ?thesis using match_integer_start [of t] by auto
  qed (simp_all add: lit_def)
qed

lemma scan_once_number:
  assumes "s \<noteq> []" and "hd s = 45 \<or> is_digit (hd s) \<or> hd s = 78 \<or> hd s = 73"
  shows "scan_once float_of (Suc n) s = match_number float_of s"
proof -
  obtain c cs where s: "s = c # cs" using assms(1) by (cases s) auto
  with assms(2) have "c \<noteq> 34" "c \<noteq> 123" "c \<noteq> 91" "c \<noteq> 110" "c \<noteq> 116" "c \<noteq> 102"
    by (auto simp add: is_digit_def)
  then show ?thesis by (simp add: s lit_def)
qed

lemma scan_once_float_text:
  assumes "is_float_text t" and "delimited rest"
  shows "scan_once float_of (Suc n) (t @ rest) = Some (JNum (PyFloat (float_of t)), rest)"
proof -
  from float_text_start [OF assms(1)]
  have "t @ rest \<noteq> []" and "hd (t @ rest) = 45 \<or> is_digit (hd (t @ rest)) \<or> hd (t @ rest) = 78 \<or>
      hd (t @ rest) = 73"
    by auto
  then have "scan_once float_of (Suc n) (t @ rest) = match_number float_of (t @ rest)"
    by (rule scan_once_number)
  then show ?thesis by (simp add: match_number_float_text [OF assms])
qed

lemma scan_once_int_repr:
  assumes "delimited rest"
  shows "scan_once float_of (Suc n) (int_repr i @ rest) = Some (JNum (PyInt i), rest)"
proof -
  have "int_repr i @ rest \<noteq> []" by (simp add: int_repr_not_Nil)
  moreover have "hd (int_repr i @ rest) = 45 \<or> is_digit (hd (int_repr i @ rest)) \<or>
      hd (int_repr i @ rest) = 78 \<or> hd (int_repr i @ rest) = 73"
    using hd_int_repr [of i] by (auto simp add: int_repr_not_Nil is_digit_def)
  ultimately have "scan_once float_of (Suc n) (int_repr i @ rest) =
      match_number float_of (int_repr i @ rest)"
    by (rule scan_once_number)
  then show ?thesis by (simp add: match_number_int_repr [OF assms])
qed

lemma json_dumps_members:
  "(\<lambda>(k, v). encode_basestring k @ 58 # 32 # D v) = member_text D"
  by (simp add: fun_eq_iff member_text_def)

lemma json_dumps_JList:
  "xs \<noteq> [] \<Longrightarrow>
   json_dumps float_repr (JList xs) = 91 # join [44, 32] (map (json_dumps float_repr) xs) @ [93]"
  by (simp add: lit_def)

lemma json_dumps_JDict:
  "kvs \<noteq> [] \<Longrightarrow>
   json_dumps float_repr (JDict kvs) =
     123 # join [44, 32] (map (member_text (json_dumps float_repr)) kvs) @ [125]"
  by (simp add: lit_def json_dumps_members)

lemma floats_read_back_JList:
  "floats_read_back float_repr float_of (JList xs) \<Longrightarrow> x \<in> set xs \<Longrightarrow>
   floats_read_back float_repr float_of x"
  by (auto simp add: floats_read_back_def)

lemma floats_read_back_JDict:
  "floats_read_back float_repr float_of (JDict kvs) \<Longrightarrow> (k, v) \<in> set kvs \<Longrightarrow>
   floats_read_back float_repr float_of v"
  by (fastforce simp add: floats_read_back_def)

lemma scan_once_json_dumps:
  assumes "delimited rest" and "distinct_keys v" and "floats_read_back float_repr float_of v"
    and "length (json_dumps float_repr v) \<le> fuel"
  shows "scan_once float_of fuel (json_dumps float_repr v @ rest) = Some (v, rest)"
  using assms
proof (induction v arbitrary: fuel rest)
  case JNull
  then obtain n where "fuel = Suc n" by (cases fuel) (auto simp add: lit_def)
  then show ?case by (simp add: lit_def)
next
  case (JBool b)
  then obtain n where "fuel = Suc n" by (cases fuel) (auto simp add: lit_def split: if_splits)
  then show ?case by (simp add: lit_def)
next
  case (JNum x)
  show ?case
  proof (cases x)
    case (PyInt i)
    with JNum.prems(4) obtain n where "fuel = Suc n"
      by (cases fuel) (auto simp add: int_repr_not_Nil)
    then show ?thesis by (simp only: PyInt json_dumps.simps scan_once_int_repr [OF JNum.prems(1)])
  next
    case (PyFloat y)
    with JNum.prems(3) have t: "is_float_text (float_repr y)" and r: "float_of (float_repr y) = y"
      by (simp_all add: floats_read_back_def)
    from float_text_start [OF t] PyFloat JNum.prems(4) obtain n where "fuel = Suc n"
      by (cases fuel) auto
    then show ?thesis
      by (simp only: PyFloat json_dumps.simps scan_once_float_text [OF t JNum.prems(1)] r)
  qed
next
  case (JStr s)
  then obtain n where "fuel = Suc n" by (cases fuel) (auto simp add: encode_basestring_def)
  then show ?case by (simp add: encode_basestring_def scanstring_encode)
next
  case (JList xs)
  note IH = JList.IH and d = JList.prems(1) and dk = JList.prems(2) and fl = JList.prems(3)
    and len = JList.prems(4)
  show ?case
  proof (cases "xs = []")
    case True
    with len obtain n where "fuel = Suc n" by (cases fuel) (auto simp add: lit_def)
    then show ?thesis by (simp add: True lit_def skip_ws_punct)
  next
    case False
    let ?D = "json_dumps float_repr"
    have el: "scan_once float_of m (?D x @ t) = Some (x, t)"
      if "x \<in> set xs" "delimited t" "length (?D x) \<le> m" for x m t
      using that dk by (intro IH floats_read_back_JList [OF fl]) auto
    define body where "body = join [44, 32] (map ?D xs)"
    have D: "?D (JList xs) = 91 # body @ [93]"
      by (simp only: json_dumps_JList [OF False] body_def)
    with len obtain n where fuel: "fuel = Suc n" by (cases fuel) auto
    from False obtain y ys where xs: "xs = y # ys" by (cases xs) auto
    have "scan_once float_of (length (?D y)) (?D y @ []) = Some (y, [])"
      by (rule el) (simp_all add: xs delimited_def)
    then have "?D y \<noteq> [] \<and> value_start (hd (?D y))"
      using scan_once_start [of float_of "length (?D y)" "?D y"] by simp
    then have st: "body \<noteq> [] \<and> value_start (hd body)"
      by (simp add: body_def xs join_Cons)
    then have sk: "skip_ws (body @ 93 # rest) = body @ 93 # rest"
      by (intro skip_ws_start) (simp_all add: value_start_not_ws)
    have h: "body @ 93 # rest \<noteq> [] \<and> hd (body @ 93 # rest) \<noteq> 93"
      using st by (auto simp add: value_start_def is_digit_def)
    have "JSONArray float_of n (join [44, 32] (map ?D xs) @ 93 # rest) = Some (xs, rest)"
    proof (rule JSONArray_join)
      show "scan_once float_of fuel (?D x @ rest) = Some (x, rest)"
        if "x \<in> set xs" "delimited rest" "length (?D x) \<le> fuel" for x fuel rest
        using that by (rule el)
      show "xs \<noteq> []" by (rule False)
      show "length (join [44, 32] (map ?D xs)) < n"
        using len fuel D by (simp add: body_def)
    qed
    then have arr: "JSONArray float_of n (body @ 93 # rest) = Some (xs, rest)"
      by (simp add: body_def)
    have "scan_once float_of (Suc n) (91 # body @ 93 # rest) = Some (JList xs, rest)"
      using h by (simp add: sk arr)
    then have "scan_once float_of (Suc n) ((91 # body @ [93]) @ rest) = Some (JList xs, rest)"
      by simp
    then show ?thesis unfolding D fuel .
  qed
next
  case (JDict kvs)
  note IH = JDict.IH and d = JDict.prems(1) and dk = JDict.prems(2) and fl = JDict.prems(3)
    and len = JDict.prems(4)
  show ?case
  proof (cases "kvs = []")
    case True
    with len obtain n where "fuel = Suc n" by (cases fuel) (auto simp add: lit_def)
    then show ?thesis by (simp add: True lit_def skip_ws_punct)
  next
    case False
    let ?D = "json_dumps float_repr"
    have el: "scan_once float_of m (?D v @ t) = Some (v, t)"
      if "v \<in> snd ` set kvs" "delimited t" "length (?D v) \<le> m" for v m t
    proof -
      from that(1) obtain k where kv: "(k, v) \<in> set kvs" by auto
      show ?thesis
      proof (rule IH [OF kv])
        show "v \<in> Basic_BNFs.snds (k, v)" by simp
        show "delimited t" by (rule that(2))
        show "distinct_keys v" using dk kv by auto
        show "floats_read_back float_repr float_of v" by (rule floats_read_back_JDict [OF fl kv])
        show "length (?D v) \<le> m" by (rule that(3))
      qed
    qed
    define body where "body = join [44, 32] (map (member_text ?D) kvs)"
    have D: "?D (JDict kvs) = 123 # body @ [125]"
      by (simp only: json_dumps_JDict [OF False] body_def)
    with len obtain n where fuel: "fuel = Suc n" by (cases fuel) auto
    from False obtain k v more where kvs: "kvs = (k, v) # more" by (cases kvs) auto
    have st: "body \<noteq> [] \<and> hd body = 34"
      by (simp add: body_def kvs join_Cons member_text_eq)
    then have sk: "skip_ws (body @ 125 # rest) = body @ 125 # rest"
      by (intro skip_ws_start) (simp_all add: is_ws_def)
    have h: "body @ 125 # rest \<noteq> [] \<and> hd (body @ 125 # rest) = 34"
      using st by auto
    have "JSONObject float_of n (tl (join [44, 32] (map (member_text ?D) kvs) @ 125 # rest)) =
          Some (kvs, rest)"
    proof (rule JSONObject_join)
      show "scan_once float_of fuel (?D v @ rest) = Some (v, rest)"
        if "v \<in> snd ` set kvs" "delimited rest" "length (?D v) \<le> fuel" for v fuel rest
        using that by (rule el)
      show "kvs \<noteq> []" by (rule False)
      show "length (join [44, 32] (map (member_text ?D) kvs)) < n"
        using len fuel D by (simp add: body_def)
    qed
    then have obj: "JSONObject float_of n (tl (body @ 125 # rest)) = Some (kvs, rest)"
      by (simp add: body_def)
    have dist: "dict_of kvs = kvs" using dk by (intro dict_of_distinct) simp
    have "scan_once float_of (Suc n) (123 # body @ 125 # rest) = Some (JDict kvs, rest)"
      using h by (simp add: sk obj dist)
    then have "scan_once float_of (Suc n) ((123 # body @ [125]) @ rest) = Some (JDict kvs, rest)"
      by simp
    then show ?thesis unfolding D fuel .
  qed
qed

lemma json_loads_json_dumps:
  assumes "distinct_keys v" and "floats_read_back float_repr float_of v"
  shows "json_loads float_of (json_dumps float_repr v) = Some v"
proof -
  let ?s = "json_dumps float_repr v"
  have s: "scan_once float_of (length ?s) (?s @ []) = Some (v, [])"
    using assms by (intro scan_once_json_dumps) (simp_all add: delimited_def)
  then have st: "?s \<noteq> [] \<and> value_start (hd ?s)"
    using scan_once_start [of float_of "length ?s" ?s] by simp
  then have sk: "skip_ws ?s = ?s"
    by (intro skip_ws_start) (simp_all add: value_start_not_ws)
  have bom: "hd ?s \<noteq> 65279" using st by (auto simp add: value_start_def is_digit_def)
  have e: "skip_ws [] = []" by (simp add: skip_ws_def)
  show ?thesis using s by (simp add: json_loads_def bom sk e)
qed

section \<open>The claims about the sanitizers\<close>

text \<open>
  Claim C1. For every label \<open>L\<close> and every used-name set \<open>U\<close>, each of the two
  sanitizers returns a name that contains none of the forbidden characters
  \<open>: \ / ? * [ ]\<close>, has at most 31 characters and is not in \<open>U\<close>; and a second call, on
  any label and on the set the first call left behind, returns a different name. A
  Python set is finite and holds fewer than \<open>2 ^ 63\<close> elements, which is below the bound
  \<open>10 ^ 30 - 1\<close> under which every suffix \<open>_k\<close> the loop can reach has at most 31
  characters.
\<close>

theorem sanitizer_names_valid_fresh_distinct:
  assumes "finite U" and "card U < 10 ^ 30 - 1"
  shows "(\<exists>r r'. sanitize L U = Some (r, insert r U) \<and>
            set r \<inter> set invalid = {} \<and> length r \<le> 31 \<and> r \<notin> U \<and>
            sanitize L' (insert r U) = Some (r', insert r' (insert r U)) \<and> r' \<noteq> r) \<and>
         (\<exists>r r'. sanitize_sheet_name L U = Some (r, insert r U) \<and>
            set r \<inter> INVALID_SHEET_CHARS = {} \<and> length r \<le> 31 \<and> r \<notin> U \<and>
            sanitize_sheet_name L' (insert r U) = Some (r', insert r' (insert r U)) \<and> r' \<noteq> r)"
proof
  from sanitize_twice [OF assms(1), of L L']
  obtain r r' where r: "sanitize L U = Some (r, insert r U)"
      "sanitize L' (insert r U) = Some (r', insert r' (insert r U))" "r' \<noteq> r"
    by blast
  from sanitize_fresh [OF assms(1), of L] r(1) have "r \<notin> U" by simp
  with r sanitize_valid [OF assms r(1)]
  show "\<exists>r r'. sanitize L U = Some (r, insert r U) \<and>
            set r \<inter> set invalid = {} \<and> length r \<le> 31 \<and> r \<notin> U \<and>
            sanitize L' (insert r U) = Some (r', insert r' (insert r U)) \<and> r' \<noteq> r"
    by blast
next
  from sanitize_sheet_name_twice [OF assms(1), of L L']
  obtain r r' where r: "sanitize_sheet_name L U = Some (r, insert r U)"
      "sanitize_sheet_name L' (insert r U) = Some (r', insert r' (insert r U))" "r' \<noteq> r"
    by blast
  from sanitize_sheet_name_fresh [OF assms(1), of L] r(1) have "r \<notin> U" by simp
  with r sanitize_sheet_name_valid [OF assms r(1)]
  show "\<exists>r r'. sanitize_sheet_name L U = Some (r, insert r U) \<and>
            set r \<inter> INVALID_SHEET_CHARS = {} \<and> length r \<le> 31 \<and> r \<notin> U \<and>
            sanitize_sheet_name L' (insert r U) = Some (r', insert r' (insert r U)) \<and> r' \<noteq> r"
    by blast
qed

text \<open>The hypotheses hold together at a concrete label and set.\<close>

theorem sanitizer_names_valid_fresh_distinct_witness:
  "(\<exists>r r'. sanitize (lit ''data'') {lit ''data''} = Some (r, insert r {lit ''data''}) \<and>
            set r \<inter> set invalid = {} \<and> length r \<le> 31 \<and> r \<notin> {lit ''data''} \<and>
            sanitize (lit ''data'') (insert r {lit ''data''})
              = Some (r', insert r' (insert r {lit ''data''})) \<and> r' \<noteq> r) \<and>
   (\<exists>r r'. sanitize_sheet_name (lit ''data'') {lit ''data''} = Some (r, insert r {lit ''data''}) \<and>
            set r \<inter> INVALID_SHEET_CHARS = {} \<and> length r \<le> 31 \<and> r \<notin> {lit ''data''} \<and>
            sanitize_sheet_name (lit ''data'') (insert r {lit ''data''})
              = Some (r', insert r' (insert r {lit ''data''})) \<and> r' \<noteq> r)"
proof -
  have 1: "finite {lit ''data''}" by simp
  have 2: "card {lit ''data''} < 10 ^ 30 - 1" by simp
  show ?thesis by (rule sanitizer_names_valid_fresh_distinct [OF 1 2])
qed

text \<open>
  Claim C5. When the name before the loop is already in the used-name set, the sanitizer
  returns the base followed by the suffix \<open>_k\<close> (the base cut first when the two do not
  fit in 31 characters), where \<open>k\<close> is the least positive integer whose name is not in
  the set; \<open>data\<close> with \<open>{data}\<close> gives \<open>data_1\<close>, and with \<open>{data, data_1}\<close> gives
  \<open>data_2\<close>, in both sanitizers.
\<close>

theorem suffix_is_least_free:
  assumes "finite U"
  shows "(candidate L \<in> U \<longrightarrow>
            (\<exists>k\<ge>1. sanitize L U
                      = Some (next_name (candidate L) k, insert (next_name (candidate L) k) U) \<and>
                   next_name (candidate L) k \<notin> U \<and>
                   (\<forall>j. 1 \<le> j \<and> j < k \<longrightarrow> next_name (candidate L) j \<in> U) \<and>
                   (length (candidate L) + length (suffix_of k) \<le> 31 \<longrightarrow>
                      next_name (candidate L) k = candidate L @ suffix_of k))) \<and>
         (sheet_candidate L \<in> U \<longrightarrow>
            (\<exists>k\<ge>1. sanitize_sheet_name L U
                      = Some (next_sheet_name (sheet_candidate L) k,
                              insert (next_sheet_name (sheet_candidate L) k) U) \<and>
                   next_sheet_name (sheet_candidate L) k \<notin> U \<and>
                   (\<forall>j. 1 \<le> j \<and> j < k \<longrightarrow> next_sheet_name (sheet_candidate L) j \<in> U) \<and>
                   (length (sheet_candidate L) + length (suffix_of k) \<le> 31 \<longrightarrow>
                      next_sheet_name (sheet_candidate L) k = sheet_candidate L @ suffix_of k))) \<and>
         sanitize (lit ''data'') {lit ''data''}
           = Some (lit ''data_1'', {lit ''data_1'', lit ''data''}) \<and>
         sanitize (lit ''data'') {lit ''data'', lit ''data_1''}
           = Some (lit ''data_2'', {lit ''data_2'', lit ''data'', lit ''data_1''}) \<and>
         sanitize_sheet_name (lit ''data'') {lit ''data''}
           = Some (lit ''data_1'', {lit ''data_1'', lit ''data''}) \<and>
         sanitize_sheet_name (lit ''data'') {lit ''data'', lit ''data_1''}
           = Some (lit ''data_2'', {lit ''data_2'', lit ''data'', lit ''data_1''})"
proof (intro conjI impI)
  assume "candidate L \<in> U"
  with sanitize_taken [OF assms, of L] show "\<exists>k\<ge>1. sanitize L U
                      = Some (next_name (candidate L) k, insert (next_name (candidate L) k) U) \<and>
                   next_name (candidate L) k \<notin> U \<and>
                   (\<forall>j. 1 \<le> j \<and> j < k \<longrightarrow> next_name (candidate L) j \<in> U) \<and>
                   (length (candidate L) + length (suffix_of k) \<le> 31 \<longrightarrow>
                      next_name (candidate L) k = candidate L @ suffix_of k)"
    using next_name_fits by blast
next
  assume "sheet_candidate L \<in> U"
  with sanitize_sheet_name_taken [OF assms, of L] show "\<exists>k\<ge>1. sanitize_sheet_name L U
                      = Some (next_sheet_name (sheet_candidate L) k,
                              insert (next_sheet_name (sheet_candidate L) k) U) \<and>
                   next_sheet_name (sheet_candidate L) k \<notin> U \<and>
                   (\<forall>j. 1 \<le> j \<and> j < k \<longrightarrow> next_sheet_name (sheet_candidate L) j \<in> U) \<and>
                   (length (sheet_candidate L) + length (suffix_of k) \<le> 31 \<longrightarrow>
                      next_sheet_name (sheet_candidate L) k = sheet_candidate L @ suffix_of k)"
    using next_sheet_name_fits sheet_candidate_ends by blast
qed (rule sanitize_data_1 sanitize_data_2 sanitize_sheet_name_data_1 sanitize_sheet_name_data_2)+

text \<open>The hypotheses hold together at a concrete label and set.\<close>

theorem suffix_is_least_free_witness:
  "candidate (lit ''data'') \<in> {lit ''data''} \<and>
   sheet_candidate (lit ''data'') \<in> {lit ''data''} \<and>
   (\<exists>k\<ge>1. sanitize (lit ''data'') {lit ''data''}
             = Some (next_name (candidate (lit ''data'')) k,
                     insert (next_name (candidate (lit ''data'')) k) {lit ''data''}) \<and>
          next_name (candidate (lit ''data'')) k \<notin> {lit ''data''}) \<and>
   (\<exists>k\<ge>1. sanitize_sheet_name (lit ''data'') {lit ''data''}
             = Some (next_sheet_name (sheet_candidate (lit ''data'')) k,
                     insert (next_sheet_name (sheet_candidate (lit ''data'')) k) {lit ''data''}) \<and>
          next_sheet_name (sheet_candidate (lit ''data'')) k \<notin> {lit ''data''})"
proof -
  have f: "finite {lit ''data''}" by simp
  have 1: "candidate (lit ''data'') \<in> {lit ''data''}"
    by (simp add: candidate_def replace_invalid_def invalid_def slice_to_def lit_def)
  have 2: "sheet_candidate (lit ''data'') \<in> {lit ''data''}"
    by (simp add: sheet_candidate_def INVALID_SHEET_CHARS_def MAX_SHEET_LEN_def slice_to_def
        strip_def isspace_def lit_def)
  from suffix_is_least_free [OF f, of "lit ''data''"] 1 2 show ?thesis by blast
qed

text \<open>
  Claim C6. The name that is checked against the used-name set is the one already cut to
  31 characters, so two different labels that agree on their first 31 characters after
  the forbidden characters are dealt with still get two different names from two calls in
  sequence; and when the name before the loop cannot be used, the returned name is the
  base, cut to make room where base and suffix exceed 31 characters, followed by the
  whole suffix, and has at most 31 characters.
\<close>

theorem truncation_before_collision_check:
  assumes "finite U" and "card U < 10 ^ 30 - 1"
  shows "candidate L = take 31 (replace_invalid L) \<and>
         (replace_invalid L1 \<noteq> replace_invalid L2 \<and>
          take 31 (replace_invalid L1) = take 31 (replace_invalid L2) \<longrightarrow>
            (\<exists>r1 r2. sanitize L1 U = Some (r1, insert r1 U) \<and>
               sanitize L2 (insert r1 U) = Some (r2, insert r2 (insert r1 U)) \<and> r2 \<noteq> r1)) \<and>
         (candidate L \<in> U \<or> candidate L = [] \<longrightarrow>
            (\<exists>k\<ge>1. \<exists>r. sanitize L U = Some (r, insert r U) \<and>
               r = (if length (candidate L) + length (suffix_of k) > 31
                    then take (31 - length (suffix_of k)) (candidate L)
                    else candidate L) @ suffix_of k \<and>
               length r \<le> 31)) \<and>
         (filter (\<lambda>ch. ch \<notin> INVALID_SHEET_CHARS) L1 \<noteq> filter (\<lambda>ch. ch \<notin> INVALID_SHEET_CHARS) L2 \<and>
          take 31 (filter (\<lambda>ch. ch \<notin> INVALID_SHEET_CHARS) L1)
            = take 31 (filter (\<lambda>ch. ch \<notin> INVALID_SHEET_CHARS) L2) \<longrightarrow>
            (\<exists>r1 r2. sanitize_sheet_name L1 U = Some (r1, insert r1 U) \<and>
               sanitize_sheet_name L2 (insert r1 U) = Some (r2, insert r2 (insert r1 U)) \<and>
               r2 \<noteq> r1)) \<and>
         (sheet_candidate L \<in> U \<longrightarrow>
            (\<exists>k\<ge>1. \<exists>r. sanitize_sheet_name L U = Some (r, insert r U) \<and>
               r = take (31 - length (suffix_of k)) (sheet_candidate L) @ suffix_of k \<and>
               length r \<le> 31))"
proof (intro conjI impI)
  show "candidate L = take 31 (replace_invalid L)" by (rule candidate_take)
next
  show "\<exists>r1 r2. sanitize L1 U = Some (r1, insert r1 U) \<and>
          sanitize L2 (insert r1 U) = Some (r2, insert r2 (insert r1 U)) \<and> r2 \<noteq> r1"
    by (rule sanitize_twice [OF assms(1)])
next
  assume "candidate L \<in> U \<or> candidate L = []"
  with assms show "\<exists>k\<ge>1. \<exists>r. sanitize L U = Some (r, insert r U) \<and>
               r = (if length (candidate L) + length (suffix_of k) > 31
                    then take (31 - length (suffix_of k)) (candidate L)
                    else candidate L) @ suffix_of k \<and>
               length r \<le> 31"
    by (rule sanitize_suffixed)
next
  show "\<exists>r1 r2. sanitize_sheet_name L1 U = Some (r1, insert r1 U) \<and>
          sanitize_sheet_name L2 (insert r1 U) = Some (r2, insert r2 (insert r1 U)) \<and> r2 \<noteq> r1"
    by (rule sanitize_sheet_name_twice [OF assms(1)])
next
  assume "sheet_candidate L \<in> U"
  with assms show "\<exists>k\<ge>1. \<exists>r. sanitize_sheet_name L U = Some (r, insert r U) \<and>
               r = take (31 - length (suffix_of k)) (sheet_candidate L) @ suffix_of k \<and>
               length r \<le> 31"
    by (rule sanitize_sheet_name_suffixed)
qed

text \<open>The hypotheses hold together at a concrete label and set.\<close>

theorem truncation_before_collision_check_witness:
  "replace_invalid (lit ''acme-prod-europe-west1-0000001::compute_instances'') \<noteq> replace_invalid (lit ''acme-prod-europe-west1-0000001::compute_disks'') \<and>
   take 31 (replace_invalid (lit ''acme-prod-europe-west1-0000001::compute_instances'')) = take 31 (replace_invalid (lit ''acme-prod-europe-west1-0000001::compute_disks'')) \<and>
   (\<exists>r1 r2. sanitize (lit ''acme-prod-europe-west1-0000001::compute_instances'') {lit ''acme-prod-europe-west1-0000001_'', lit ''acme-prod-europe-west1-0000001c''} = Some (r1, insert r1 {lit ''acme-prod-europe-west1-0000001_'', lit ''acme-prod-europe-west1-0000001c''}) \<and>
      sanitize (lit ''acme-prod-europe-west1-0000001::compute_disks'') (insert r1 {lit ''acme-prod-europe-west1-0000001_'', lit ''acme-prod-europe-west1-0000001c''}) = Some (r2, insert r2 (insert r1 {lit ''acme-prod-europe-west1-0000001_'', lit ''acme-prod-europe-west1-0000001c''})) \<and> r2 \<noteq> r1) \<and>
   candidate (lit ''acme-prod-europe-west1-0000001::compute_instances'') \<in> {lit ''acme-prod-europe-west1-0000001_'', lit ''acme-prod-europe-west1-0000001c''} \<and>
   (\<exists>k\<ge>1. \<exists>r. sanitize (lit ''acme-prod-europe-west1-0000001::compute_instances'') {lit ''acme-prod-europe-west1-0000001_'', lit ''acme-prod-europe-west1-0000001c''} = Some (r, insert r {lit ''acme-prod-europe-west1-0000001_'', lit ''acme-prod-europe-west1-0000001c''}) \<and>
      r = (if length (candidate (lit ''acme-prod-europe-west1-0000001::compute_instances'')) + length (suffix_of k) > 31
           then take (31 - length (suffix_of k)) (candidate (lit ''acme-prod-europe-west1-0000001::compute_instances''))
           else candidate (lit ''acme-prod-europe-west1-0000001::compute_instances'')) @ suffix_of k \<and>
      length r \<le> 31) \<and>
   filter (\<lambda>ch. ch \<notin> INVALID_SHEET_CHARS) (lit ''acme-prod-europe-west1-0000001::compute_instances'') \<noteq> filter (\<lambda>ch. ch \<notin> INVALID_SHEET_CHARS) (lit ''acme-prod-europe-west1-0000001::compute_disks'') \<and>
   take 31 (filter (\<lambda>ch. ch \<notin> INVALID_SHEET_CHARS) (lit ''acme-prod-europe-west1-0000001::compute_instances'')) = take 31 (filter (\<lambda>ch. ch \<notin> INVALID_SHEET_CHARS) (lit ''acme-prod-europe-west1-0000001::compute_disks'')) \<and>
   (\<exists>r1 r2. sanitize_sheet_name (lit ''acme-prod-europe-west1-0000001::compute_instances'') {lit ''acme-prod-europe-west1-0000001_'', lit ''acme-prod-europe-west1-0000001c''} = Some (r1, insert r1 {lit ''acme-prod-europe-west1-0000001_'', lit ''acme-prod-europe-west1-0000001c''}) \<and>
      sanitize_sheet_name (lit ''acme-prod-europe-west1-0000001::compute_disks'') (insert r1 {lit ''acme-prod-europe-west1-0000001_'', lit ''acme-prod-europe-west1-0000001c''}) = Some (r2, insert r2 (insert r1 {lit ''acme-prod-europe-west1-0000001_'', lit ''acme-prod-europe-west1-0000001c''})) \<and>
      r2 \<noteq> r1) \<and>
   sheet_candidate (lit ''acme-prod-europe-west1-0000001::compute_instances'') \<in> {lit ''acme-prod-europe-west1-0000001_'', lit ''acme-prod-europe-west1-0000001c''} \<and>
   (\<exists>k\<ge>1. \<exists>r. sanitize_sheet_name (lit ''acme-prod-europe-west1-0000001::compute_instances'') {lit ''acme-prod-europe-west1-0000001_'', lit ''acme-prod-europe-west1-0000001c''} = Some (r, insert r {lit ''acme-prod-europe-west1-0000001_'', lit ''acme-prod-europe-west1-0000001c''}) \<and>
      r = take (31 - length (suffix_of k)) (sheet_candidate (lit ''acme-prod-europe-west1-0000001::compute_instances'')) @ suffix_of k \<and>
      length r \<le> 31)"
proof -
  have f: "finite {lit ''acme-prod-europe-west1-0000001_'', lit ''acme-prod-europe-west1-0000001c''}" by simp
  have c: "card {lit ''acme-prod-europe-west1-0000001_'', lit ''acme-prod-europe-west1-0000001c''} < 10 ^ 30 - 1" by (simp add: lit_def)
  have 1: "replace_invalid (lit ''acme-prod-europe-west1-0000001::compute_instances'') \<noteq> replace_invalid (lit ''acme-prod-europe-west1-0000001::compute_disks'')"
    by (simp add: replace_invalid_def invalid_def lit_def)
  have 2: "take 31 (replace_invalid (lit ''acme-prod-europe-west1-0000001::compute_instances'')) = take 31 (replace_invalid (lit ''acme-prod-europe-west1-0000001::compute_disks''))"
    by (simp add: replace_invalid_def invalid_def lit_def)
  have 3: "candidate (lit ''acme-prod-europe-west1-0000001::compute_instances'') \<in> {lit ''acme-prod-europe-west1-0000001_'', lit ''acme-prod-europe-west1-0000001c''}"
    by (simp add: candidate_def replace_invalid_def invalid_def slice_to_def lit_def)
  have 4: "filter (\<lambda>ch. ch \<notin> INVALID_SHEET_CHARS) (lit ''acme-prod-europe-west1-0000001::compute_instances'') \<noteq> filter (\<lambda>ch. ch \<notin> INVALID_SHEET_CHARS) (lit ''acme-prod-europe-west1-0000001::compute_disks'')"
    by (simp add: INVALID_SHEET_CHARS_def lit_def)
  have 5: "take 31 (filter (\<lambda>ch. ch \<notin> INVALID_SHEET_CHARS) (lit ''acme-prod-europe-west1-0000001::compute_instances'')) = take 31 (filter (\<lambda>ch. ch \<notin> INVALID_SHEET_CHARS) (lit ''acme-prod-europe-west1-0000001::compute_disks''))"
    by (simp add: INVALID_SHEET_CHARS_def lit_def)
  have 6: "sheet_candidate (lit ''acme-prod-europe-west1-0000001::compute_instances'') \<in> {lit ''acme-prod-europe-west1-0000001_'', lit ''acme-prod-europe-west1-0000001c''}"
    by (simp add: sheet_candidate_def INVALID_SHEET_CHARS_def MAX_SHEET_LEN_def slice_to_def
        strip_def isspace_def lit_def)
  from truncation_before_collision_check [OF f c, of "lit ''acme-prod-europe-west1-0000001::compute_instances''" "lit ''acme-prod-europe-west1-0000001::compute_instances''" "lit ''acme-prod-europe-west1-0000001::compute_disks''"] 1 2 3 4 5 6
  show ?thesis by blast
qed




text \<open>
  Claim C10. A label that has no forbidden character, at most 31 characters, is not
  empty, has no white space at either end and is not in the used-name set is returned
  unchanged by both sanitizers, and is added to the set.
\<close>

theorem sanitizer_identity_on_valid_fresh_labels:
  assumes "set L \<inter> set invalid = {}" and "length L \<le> 31" and "L \<noteq> []"
    and "\<not> isspace (hd L)" and "\<not> isspace (last L)" and "L \<notin> U"
  shows "sanitize L U = Some (L, insert L U) \<and> sanitize_sheet_name L U = Some (L, insert L U)"
proof
  from assms(1,2) have "candidate L = L" by (rule candidate_id)
  with sanitize_free [of L U] assms(3,6) show "sanitize L U = Some (L, insert L U)" by simp
next
  from assms(1) have "set L \<inter> INVALID_SHEET_CHARS = {}" by (simp add: invalid_sets_agree)
  then have "sheet_candidate L = L" using assms(2-5) by (rule sheet_candidate_id)
  with sanitize_sheet_name_free [of L U] assms(6)
  show "sanitize_sheet_name L U = Some (L, insert L U)" by simp
qed

text \<open>The hypotheses hold together at a concrete label and set.\<close>

theorem sanitizer_identity_on_valid_fresh_labels_witness:
  "sanitize (lit ''compute_instances'') {lit ''data''}
     = Some (lit ''compute_instances'', insert (lit ''compute_instances'') {lit ''data''}) \<and>
   sanitize_sheet_name (lit ''compute_instances'') {lit ''data''}
     = Some (lit ''compute_instances'', insert (lit ''compute_instances'') {lit ''data''})"
proof -
  have 1: "set (lit ''compute_instances'') \<inter> set invalid = {}"
    by (simp add: lit_def invalid_def)
  have 2: "length (lit ''compute_instances'') \<le> 31" by (simp add: lit_def)
  have 3: "lit ''compute_instances'' \<noteq> []" by (simp add: lit_def)
  have 4: "\<not> isspace (hd (lit ''compute_instances''))" by (simp add: lit_def isspace_def)
  have 5: "\<not> isspace (last (lit ''compute_instances''))" by (simp add: lit_def isspace_def)
  have 6: "lit ''compute_instances'' \<notin> {lit ''data''}" by (simp add: lit_def)
  show ?thesis by (rule sanitizer_identity_on_valid_fresh_labels [OF 1 2 3 4 5 6])
qed


section \<open>The claims about collecting, exporting and uploading\<close>









text \<open>
  Claim C8 on the code. The package's \<open>resources_to_excel\<close> writes, for the empty list of
  records, one sheet \<open>assets\<close> holding a single empty row. The script's
  \<open>resources_to_excel\<close> writes one sheet per entry, an empty one for a label whose list of
  records is empty; for the empty mapping its loop never runs, so it closes the writer on a
  workbook that has no sheet, whatever pandas is given, and openpyxl refuses to save that
  workbook: no placeholder sheet is written and the export ends with an exception.
\<close>

theorem export_of_empty_resource_set:
  "resources_to_excel pd [] output_file =
     Some (case close_writer pd output_file [] of
             Some e \<Rightarrow> (Inl e, [])
           | None \<Rightarrow> (Inr (), [Save output_file []])) \<and>
   resources_to_excel pandas_openpyxl [] output_file =
     Some (Inl (Exception (lit ''At least one sheet must be visible'')), []) \<and>
   resources_to_excel pandas_openpyxl [(lit ''p::compute_instances'', JList [])] output_file =
     Some (Inr (), [Save output_file [(lit ''p__compute_instances'', \<lparr>columns = [], cells = []\<rparr>)]]) \<and>
   resources_to_excel_pkg dumps pandas_openpyxl [] out_path =
     Some (Inr (),
           [Log (lit ''Writing inventory to '' @ out_path),
            Save out_path [(lit ''assets'', \<lparr>columns = [], cells = [[]]\<rparr>)]])"
proof (intro conjI)
  show "resources_to_excel pd [] output_file =
     Some (case close_writer pd output_file [] of
             Some e \<Rightarrow> (Inl e, [])
           | None \<Rightarrow> (Inr (), [Save output_file []]))"
    by (rule resources_to_excel_Nil)
  show "resources_to_excel pandas_openpyxl [] output_file =
     Some (Inl (Exception (lit ''At least one sheet must be visible'')), [])"
    by (simp add: resources_to_excel_Nil pandas_openpyxl_def)
  show "resources_to_excel pandas_openpyxl [(lit ''p::compute_instances'', JList [])] output_file =
     Some (Inr (), [Save output_file [(lit ''p__compute_instances'', \<lparr>columns = [], cells = []\<rparr>)]])"
    by (simp add: export_eval)
  have "resources_to_excel_pkg dumps pandas_openpyxl [] out_path =
           Some (Inr (),
                 [Log (lit ''Writing inventory to '' @ out_path),
                  Save out_path [(lit ''assets'', assets_frame dumps [])]])"
    by (rule resources_to_excel_pkg_written) (simp_all add: pandas_openpyxl_def)
  then show "resources_to_excel_pkg dumps pandas_openpyxl [] out_path =
     Some (Inr (),
           [Log (lit ''Writing inventory to '' @ out_path),
            Save out_path [(lit ''assets'', \<lparr>columns = [], cells = [[]]\<rparr>)]])"
    by (simp add: assets_frame_empty)
qed

text \<open>
  Claim C2, as stated, fails on \<open>resources_to_excel\<close> of the script, which hands a list
  of mappings to \<open>pandas.json_normalize\<close>: the nested mapping \<open>labels\<close> is expanded into
  the column \<open>labels.env\<close>, and no cell holds a text encoding of it.
\<close>

theorem nested_mapping_expanded_by_script:
  "resources_to_excel pandas_openpyxl
     [(lit ''p::asset_resources'',
       JList [JDict [(lit ''name'', JStr (lit ''vm-1'')),
                     (lit ''labels'', JDict [(lit ''env'', JStr (lit ''prod''))])]])]
     (lit ''out.xlsx'')
   = Some (Inr (),
           [Save (lit ''out.xlsx'')
              [(lit ''p__asset_resources'',
                \<lparr>columns = [lit ''name'', lit ''labels.env''],
                 cells = [[(lit ''name'', JStr (lit ''vm-1'')),
                           (lit ''labels.env'', JStr (lit ''prod''))]]\<rparr>)]])"
  by (simp add: export_eval)

end
